theory Spec2Isabelle
  imports Main "HOL-Library.Word" "HOL-Library.AList"
begin

unbundle bit_operations_syntax

section \<open>JavaScript values used by the codec\<close>

text \<open>
  A Node.js \<open>Buffer\<close> is a list of bytes. A JavaScript number that holds an integer is an
  \<open>int\<close>; \<open>undefined\<close> (an out-of-range read of a buffer) is \<open>None\<close>. The bitwise operators
  of JavaScript convert their operands to 32-bit signed integers (\<open>undefined\<close> becomes 0)
  and return a 32-bit signed integer.
\<close>

type_synonym byte = "8 word"
type_synonym buffer = "byte list"

datatype js_error = TypeError | Error string | OutOfFuel

definition toInt32 :: "int \<Rightarrow> int" where
  "toInt32 k = signed_take_bit 31 k"

definition toNumber :: "int option \<Rightarrow> int" where
  \<comment> \<open>the operand conversion of the bitwise operators: \<open>undefined\<close> counts as 0\<close>
  "toNumber v = (case v of None \<Rightarrow> 0 | Some k \<Rightarrow> k)"

definition bitAnd :: "int \<Rightarrow> int \<Rightarrow> int" where
  "bitAnd a b = toInt32 (toInt32 a AND toInt32 b)"

definition bitOr :: "int \<Rightarrow> int \<Rightarrow> int" where
  "bitOr a b = toInt32 (toInt32 a OR toInt32 b)"

definition shiftLeft :: "int \<Rightarrow> nat \<Rightarrow> int" where
  "shiftLeft a n = toInt32 (push_bit n (toInt32 a))"

definition shiftRight :: "int \<Rightarrow> nat \<Rightarrow> int" where
  "shiftRight a n = drop_bit n (toInt32 a)"

definition bufferAt :: "buffer \<Rightarrow> int \<Rightarrow> int option" where
  \<comment> \<open>\<open>buffer[i]\<close>: \<open>undefined\<close> outside the buffer\<close>
  "bufferAt buf i = (if 0 \<le> i \<and> i < int (length buf) then Some (uint (buf ! nat i)) else None)"

definition adjustOffset :: "int \<Rightarrow> nat \<Rightarrow> nat" where
  \<comment> \<open>index clamping of \<open>Buffer.prototype.slice\<close>: a negative index counts from the end\<close>
  "adjustOffset off len =
     (if off < 0 then (if 0 < off + int len then nat (off + int len) else 0)
      else if off < int len then nat off else len)"

definition slice :: "buffer \<Rightarrow> int \<Rightarrow> int \<Rightarrow> buffer" where
  "slice buf start fin =
     (let s = adjustOffset start (length buf); e = adjustOffset fin (length buf)
      in take (e - s) (drop s buf))"

definition sliceNaN :: "buffer \<Rightarrow> int \<Rightarrow> buffer" where
  \<comment> \<open>\<open>buffer.slice(start, NaN)\<close>: an end index that is \<open>NaN\<close> counts as 0\<close>
  "sliceNaN buf start = slice buf start 0"

definition sliceFrom :: "buffer \<Rightarrow> int \<Rightarrow> buffer" where
  \<comment> \<open>\<open>buffer.slice(start)\<close>: to the end of the buffer\<close>
  "sliceFrom buf start = drop (adjustOffset start (length buf)) buf"

subsection \<open>Strings: hexadecimal text, case, whitespace\<close>

text \<open>
  Strings are lists of 8-bit characters, the code units U+0000 to U+00FF; the strings of
  this program are ASCII (hexadecimal text and fixed messages), so \<open>toUpperCase\<close> is
  modelled on ASCII. Of these code units the class \<open>\s\<close> holds the six ASCII white-space
  characters and the no-break space U+00A0.
\<close>

definition isWhitespace :: "char \<Rightarrow> bool" where
  "isWhitespace c = (let n = (of_char c :: nat) in (9 \<le> n \<and> n \<le> 13) \<or> n = 32 \<or> n = 160)"

definition removeWhitespace :: "string \<Rightarrow> string" where
  \<comment> \<open>\<open>s.replace(/\s/g, '')\<close>\<close>
  "removeWhitespace s = filter (\<lambda>c. \<not> isWhitespace c) s"

definition toUpperChar :: "char \<Rightarrow> char" where
  "toUpperChar c =
     (let n = (of_char c :: nat) in if 97 \<le> n \<and> n \<le> 122 then char_of (n - 32) else c)"

definition toUpperCase :: "string \<Rightarrow> string" where
  "toUpperCase s = map toUpperChar s"

definition hexDigit :: "nat \<Rightarrow> char" where
  "hexDigit n = (if n < 10 then char_of (48 + n) else char_of (87 + n))"

definition hexValue :: "char \<Rightarrow> nat option" where
  "hexValue c =
     (let n = (of_char c :: nat) in
      if 48 \<le> n \<and> n \<le> 57 then Some (n - 48)
      else if 97 \<le> n \<and> n \<le> 102 then Some (n - 87)
      else if 65 \<le> n \<and> n \<le> 70 then Some (n - 55)
      else None)"

fun fromHex :: "string \<Rightarrow> buffer" where
  \<comment> \<open>\<open>Buffer.from(s, 'hex')\<close>: decodes pairs of digits and stops at the first pair that
      is not hexadecimal; a trailing single character is dropped\<close>
  "fromHex (a # b # cs) =
     (case (hexValue a, hexValue b) of
        (Some h, Some l) \<Rightarrow> word_of_nat (16 * h + l) # fromHex cs
      | _ \<Rightarrow> [])"
| "fromHex _ = []"

definition toHex :: "buffer \<Rightarrow> string" where
  \<comment> \<open>\<open>buffer.toString('hex')\<close>: two lower-case digits per byte\<close>
  "toHex buf = concat (map (\<lambda>b. [hexDigit (unat b div 16), hexDigit (unat b mod 16)]) buf)"

function digits :: "nat \<Rightarrow> nat \<Rightarrow> string" where
  "digits radix n =
     (if n < radix \<or> radix < 2 then [hexDigit n]
      else digits radix (n div radix) @ [hexDigit (n mod radix)])"
  by pat_completeness auto
termination
  by (relation "measure (\<lambda>(radix, n). n)") auto

definition numberToString :: "nat \<Rightarrow> int \<Rightarrow> string" where
  \<comment> \<open>\<open>k.toString(radix)\<close> for an integer \<open>k\<close>\<close>
  "numberToString radix k =
     (if k < 0 then CHR ''-'' # digits radix (nat (- k)) else digits radix (nat k))"

definition padStart :: "nat \<Rightarrow> char \<Rightarrow> string \<Rightarrow> string" where
  "padStart n c s = replicate (n - length s) c @ s"

definition repeat :: "string \<Rightarrow> nat \<Rightarrow> string" where
  "repeat s n = concat (replicate n s)"


section \<open>TLV codec\<close>

subsection \<open>TLVParser\<close>

text \<open>
  The objects \<open>TLVParser\<close> returns. The \<open>name\<close> annotation, a lookup of the tag in the
  static table \<open>EMV_TAGS\<close> that nothing in the engine reads, is left out. The
  \<open>length\<close> field is \<open>undefined\<close> when the length byte lies outside the buffer.
\<close>

datatype tlvObject =
  TLVObject (tag: int) (tagHex: string) (length_tlv: "int option") (value_tlv: buffer)
    (valueHex: string) (constructed: bool) (children: "tlvObject list")

fun tagLoop :: "buffer \<Rightarrow> int \<Rightarrow> int \<Rightarrow> int \<times> int" where
  \<comment> \<open>the \<open>do ... while\<close> of \<open>parseTag\<close>, on the bytes after the first tag byte; a read
      past the end gives \<open>undefined\<close>, which adds nothing to the tag and ends the loop\<close>
  "tagLoop [] tg tagLength = (bitOr (shiftLeft tg 8) (toNumber None), tagLength + 1)"
| "tagLoop (b # bs) tg tagLength =
     (let tg' = bitOr (shiftLeft tg 8) (uint b) in
      if bitAnd (uint b) 0x80 = 0x80 then tagLoop bs tg' (tagLength + 1)
      else (tg', tagLength + 1))"

definition parseTag :: "buffer \<Rightarrow> int \<Rightarrow> int option \<times> int" where
  "parseTag buf offset =
     (case bufferAt buf offset of
        None \<Rightarrow> (None, 1)
      | Some t \<Rightarrow>
          if bitAnd t 0x1F = 0x1F
          then (let (tg, tagLength) = tagLoop (drop (nat offset + 1) buf) t 1 in (Some tg, tagLength))
          else (Some t, 1))"

definition parseLength :: "buffer \<Rightarrow> int \<Rightarrow> int option \<times> int" where
  "parseLength buf offset =
     (let firstByte = bufferAt buf offset in
      if bitAnd (toNumber firstByte) 0x80 = 0 then (firstByte, 1)
      else
        (let numLengthBytes = bitAnd (toNumber firstByte) 0x7F;
             len = foldl (\<lambda>len i. bitOr (shiftLeft len 8) (toNumber (bufferAt buf (offset + i))))
                     0 [1..numLengthBytes]
         in (Some len, numLengthBytes + 1)))"

definition isConstructedTag :: "int \<Rightarrow> bool" where
  "isConstructedTag tg =
     (let firstByte = (if tg > 0xFF then bitAnd (shiftRight tg 8) 0xFF else tg)
      in bitAnd firstByte 0x20 = 0x20)"

definition tagToHex :: "int \<Rightarrow> string" where
  \<comment> \<open>\<open>tag.toString(16).toUpperCase().padStart(2, '0')\<close>\<close>
  "tagToHex tg = padStart 2 (CHR ''0'') (toUpperCase (numberToString 16 tg))"

fun parseBuffer :: "nat \<Rightarrow> buffer \<Rightarrow> int \<Rightarrow> int \<Rightarrow> js_error + tlvObject list" where
  \<comment> \<open>The \<open>while\<close> loop can run forever (a negative decoded length moves the offset
      back), so the recursion takes fuel: one unit per iteration and per nesting level.
      A tag read outside the buffer is \<open>undefined\<close> and \<open>tag.toString(16)\<close> throws.
      An \<open>undefined\<close> length makes the end of the slice and the next offset \<open>NaN\<close>,
      which ends the loop after the object is pushed.\<close>
  "parseBuffer 0 buf offset endOffset = Inl OutOfFuel"
| "parseBuffer (Suc fuel) buf offset endOffset =
     (if \<not> offset < endOffset then Inr []
      else if bufferAt buf offset = Some 0x00 \<or> bufferAt buf offset = Some 0xFF
      then parseBuffer fuel buf (offset + 1) endOffset
      else
        (let (tg, tagLength) = parseTag buf offset;
             offset1 = offset + tagLength;
             (len, lengthBytes) = parseLength buf offset1;
             offset2 = offset1 + lengthBytes;
             val = (case len of None \<Rightarrow> sliceNaN buf offset2 | Some l \<Rightarrow> slice buf offset2 (offset2 + l))
         in case tg of
              None \<Rightarrow> Inl TypeError
            | Some t \<Rightarrow>
               (let isConstructed = isConstructedTag t in
                case (if isConstructed then parseBuffer fuel val 0 (int (length val)) else Inr []) of
                  Inl e \<Rightarrow> Inl e
                | Inr kids \<Rightarrow>
                   (let tlv = TLVObject t (tagToHex t) len val (toUpperCase (toHex val))
                                isConstructed kids
                    in case len of
                         None \<Rightarrow> Inr [tlv]
                       | Some l \<Rightarrow>
                          (case parseBuffer fuel buf (offset2 + l) endOffset of
                             Inl e \<Rightarrow> Inl e
                           | Inr rest \<Rightarrow> Inr (tlv # rest))))))"

definition parse :: "nat \<Rightarrow> string \<Rightarrow> js_error + tlvObject list" where
  "parse fuel hexData =
     (let buf = fromHex (removeWhitespace hexData) in parseBuffer fuel buf 0 (int (length buf)))"

fun findTag :: "tlvObject list \<Rightarrow> string \<Rightarrow> tlvObject option" where
  "findTag [] searchHex = None"
| "findTag (TLVObject tg th len val vh con kids # tlvs) searchHex =
     (if th = toUpperCase searchHex then Some (TLVObject tg th len val vh con kids)
      else if con \<and> length kids > 0 then
        (case findTag kids searchHex of
           Some found \<Rightarrow> Some found
         | None \<Rightarrow> findTag tlvs searchHex)
      else findTag tlvs searchHex)"

subsection \<open>TLVBuilder\<close>

text \<open>
  The builder keeps a list of items; \<open>addConstructed\<close> runs the caller's function on a
  fresh builder and stores that builder's bytes as the item's value.
\<close>

record builderItem =
  item_tag :: string
  item_value :: buffer
  item_constructed :: bool

datatype bufferOrHex = Buf buffer | Hex string

definition encodeTag :: "string \<Rightarrow> buffer" where
  "encodeTag tHex = fromHex tHex"

definition encodeLength :: "nat \<Rightarrow> buffer" where
  \<comment> \<open>\<open>Buffer.from([..])\<close> stores each number modulo 256\<close>
  "encodeLength len =
     (if len < 0x80 then [word_of_nat len]
      else if len < 0x100 then [0x81, word_of_nat len]
      else if len < 0x10000 then
        [0x82, word_of_int (bitAnd (shiftRight (int len) 8) 0xFF), word_of_int (bitAnd (int len) 0xFF)]
      else
        [0x83, word_of_int (bitAnd (shiftRight (int len) 16) 0xFF),
               word_of_int (bitAnd (shiftRight (int len) 8) 0xFF), word_of_int (bitAnd (int len) 0xFF)])"

definition build :: "builderItem list \<Rightarrow> buffer" where
  "build tlvData =
     concat (map (\<lambda>item. encodeTag (item_tag item) @ encodeLength (length (item_value item))
                           @ item_value item) tlvData)"

definition buildHex :: "builderItem list \<Rightarrow> string" where
  "buildHex tlvData = toUpperCase (toHex (build tlvData))"

definition addPrimitive :: "builderItem list \<Rightarrow> string \<Rightarrow> bufferOrHex \<Rightarrow> builderItem list" where
  "addPrimitive tlvData tHex v =
     (let valueBuffer = (case v of Buf b \<Rightarrow> b | Hex s \<Rightarrow> fromHex (removeWhitespace s))
      in tlvData @ [\<lparr>item_tag = toUpperCase tHex, item_value = valueBuffer, item_constructed = False\<rparr>])"

definition addConstructed ::
  "builderItem list \<Rightarrow> string \<Rightarrow> (builderItem list \<Rightarrow> builderItem list) \<Rightarrow> builderItem list" where
  "addConstructed tlvData tHex buildFn =
     tlvData @ [\<lparr>item_tag = toUpperCase tHex, item_value = build (buildFn []), item_constructed = True\<rparr>]"

text \<open>
  A node tree stands for a sequence of builder calls: a leaf for \<open>addPrimitive\<close>, an inner
  node for \<open>addConstructed\<close> with a function that adds the children in order.
\<close>

datatype node = Primitive string buffer | Constructed string "node list"

fun addNode :: "node \<Rightarrow> builderItem list \<Rightarrow> builderItem list"
  and addNodes :: "node list \<Rightarrow> builderItem list \<Rightarrow> builderItem list" where
  "addNode (Primitive tHex v) tlvData = addPrimitive tlvData tHex (Buf v)"
| "addNode (Constructed tHex kids) tlvData =
     addConstructed tlvData tHex (\<lambda>childBuilder. addNodes kids childBuilder)"
| "addNodes [] tlvData = tlvData"
| "addNodes (n # ns) tlvData = addNodes ns (addNode n tlvData)"

definition buildNodes :: "node list \<Rightarrow> buffer" where
  "buildNodes nodes = build (addNodes nodes [])"


subsection \<open>DOLParser\<close>

text \<open>
  A DOL entry's \<open>length\<close> is the byte \<open>DOLParser.parse\<close> read after the tag, or
  \<open>undefined\<close> when the DOL ends with a tag. The \<open>name\<close> annotation is left out.
\<close>

record dolEntry =
  dol_tag :: int
  dol_tagHex :: string
  dol_length :: "nat option"

function dolLoop :: "buffer \<Rightarrow> int \<Rightarrow> js_error + dolEntry list" where
  "dolLoop buf offset =
     (if offset < int (length buf) then
        (let (tg, tagLength) = parseTag buf offset;
             offset1 = offset + tagLength;
             len = bufferAt buf offset1
         in case tg of
              None \<Rightarrow> Inl TypeError
            | Some t \<Rightarrow>
               (case dolLoop buf (offset1 + 1) of
                  Inl e \<Rightarrow> Inl e
                | Inr rest \<Rightarrow>
                    Inr (\<lparr>dol_tag = t, dol_tagHex = tagToHex t, dol_length = map_option nat len\<rparr> # rest)))
      else Inr [])"
  by pat_completeness auto
termination
proof (relation "measure (\<lambda>(buf, offset). nat (int (length buf) - offset))", goal_cases)
  case 1
  show ?case by simp
next
  case (2 buf offset x tg tagLength offset1 len t)
  have loop: "l < snd (tagLoop bs k l)" for bs k l
  proof (induction bs arbitrary: k l)
    case Nil
    show ?case by simp
  next
    case (Cons a bs)
    have "l < snd (tagLoop bs k' (l + 1))" for k'
      using Cons.IH [of "l + 1" k'] by simp
    then show ?case by (simp add: Let_def)
  qed
  have "1 \<le> snd (parseTag buf offset)"
  proof (cases "bufferAt buf offset")
    case None
    then show ?thesis by (simp add: parseTag_def)
  next
    case (Some b)
    have "1 < snd (tagLoop (drop (nat offset + 1) buf) b 1)"
      by (rule loop)
    then show ?thesis
      using Some by (cases "tagLoop (drop (nat offset + 1) buf) b 1") (simp add: parseTag_def)
  qed
  moreover have "snd (parseTag buf offset) = tagLength"
    using 2 by (metis snd_conv)
  ultimately show ?case
    using 2 by simp
qed

definition parseDOL :: "string \<Rightarrow> js_error + dolEntry list" where
  \<comment> \<open>\<open>DOLParser.parse\<close>\<close>
  "parseDOL dolHex = dolLoop (fromHex (removeWhitespace dolHex)) 0"

definition copyInto :: "buffer \<Rightarrow> buffer \<Rightarrow> nat \<Rightarrow> buffer" where
  \<comment> \<open>\<open>source.copy(target, targetStart)\<close>: the target after the copy\<close>
  "copyInto source target targetStart =
     (let n = min (length source) (length target - targetStart)
      in take targetStart target @ take n source @ drop (targetStart + n) target)"

definition buildEntry :: "(string \<rightharpoonup> string) \<Rightarrow> dolEntry \<Rightarrow> buffer" where
  \<comment> \<open>the body of the loop of \<open>DOLParser.buildData\<close>: the buffer pushed for one entry.
      \<open>!value\<close> holds for a missing value and for the empty string; against an
      \<open>undefined\<close> length \<open>repeat\<close> gives the empty string and both comparisons are false\<close>
  "buildEntry values entry =
     (let v = (case values (dol_tagHex entry) of
                 None \<Rightarrow> repeat ''00'' (case dol_length entry of None \<Rightarrow> 0 | Some n \<Rightarrow> n)
               | Some s \<Rightarrow>
                   if s = [] then repeat ''00'' (case dol_length entry of None \<Rightarrow> 0 | Some n \<Rightarrow> n)
                   else s);
          valueBuffer = fromHex (removeWhitespace v)
      in case dol_length entry of
           None \<Rightarrow> valueBuffer
         | Some n \<Rightarrow>
             if length valueBuffer < n
             then copyInto valueBuffer (replicate n 0) (n - length valueBuffer)
             else if length valueBuffer > n
             then sliceFrom valueBuffer (int (length valueBuffer) - int n)
             else valueBuffer)"

definition buildData :: "dolEntry list \<Rightarrow> (string \<rightharpoonup> string) \<Rightarrow> buffer" where
  "buildData dolEntries values = concat (map (buildEntry values) dolEntries)"

section \<open>APDU model\<close>

record commandAPDU =
  cla :: int
  ins :: int
  p1 :: int
  p2 :: int
  cdata :: "buffer option"
  le :: "int option"

definition apduCase :: "commandAPDU \<Rightarrow> nat" where
  \<comment> \<open>the getter \<open>case\<close>; a \<open>Buffer\<close>, also an empty one, is truthy\<close>
  "apduCase c =
     (if cdata c = None \<and> le c = None then 1
      else if cdata c = None \<and> le c \<noteq> None then 2
      else if cdata c \<noteq> None \<and> le c = None then 3
      else 4)"

definition leByte :: "int option \<Rightarrow> byte" where
  \<comment> \<open>\<open>Buffer.from([this.le === 256 ? 0 : this.le])\<close>\<close>
  "leByte l = word_of_int (if l = Some 256 then 0 else toNumber l)"

definition commandToBuffer :: "commandAPDU \<Rightarrow> buffer" where
  \<comment> \<open>\<open>CommandAPDU.toBuffer\<close>\<close>
  "commandToBuffer c =
     (let header = [word_of_int (cla c), word_of_int (ins c), word_of_int (p1 c), word_of_int (p2 c)];
          d = (case cdata c of None \<Rightarrow> [] | Some b \<Rightarrow> b)
      in if apduCase c = 1 then header
         else if apduCase c = 2 then header @ [leByte (le c)]
         else if apduCase c = 3 then header @ [word_of_nat (length d)] @ d
         else header @ [word_of_nat (length d)] @ d @ [leByte (le c)])"

definition commandFromBuffer :: "buffer \<Rightarrow> js_error + commandAPDU" where
  \<comment> \<open>\<open>CommandAPDU.fromBuffer\<close>\<close>
  "commandFromBuffer buf =
     (if length buf < 4 then Inl (Error ''Invalid APDU: too short'')
      else
        (let c = \<lparr>cla = uint (buf ! 0), ins = uint (buf ! 1), p1 = uint (buf ! 2), p2 = uint (buf ! 3),
                  cdata = None, le = None\<rparr>
         in if length buf = 4 then Inr c
            else if length buf = 5
            then Inr (c\<lparr>le := Some (if buf ! 4 = 0 then 256 else uint (buf ! 4))\<rparr>)
            else
              (let lc = unat (buf ! 4) in
               if length buf = 5 + lc
               then Inr (c\<lparr>cdata := Some (slice buf 5 (5 + int lc))\<rparr>)
               else if length buf = 6 + lc
               then Inr (c\<lparr>cdata := Some (slice buf 5 (5 + int lc)),
                          le := Some (if buf ! (5 + lc) = 0 then 256 else uint (buf ! (5 + lc)))\<rparr>)
               else Inl (Error ''Invalid APDU: incorrect length''))))"

record responseAPDU =
  data :: buffer
  sw1 :: int
  sw2 :: int

definition sw :: "responseAPDU \<Rightarrow> int" where
  "sw r = bitOr (shiftLeft (sw1 r) 8) (sw2 r)"

definition SW_isSuccess :: "int \<Rightarrow> bool" where
  "SW_isSuccess w = (w = 0x9000 \<or> (w \<ge> 0x9100 \<and> w \<le> 0x91FF))"

definition isSuccess :: "responseAPDU \<Rightarrow> bool" where
  "isSuccess r = SW_isSuccess (sw r)"

definition statusMessages :: "(int \<times> string) list" where
  "statusMessages =
     [(0x9000, ''Success''), (0x6700, ''Wrong length''),
      (0x6982, ''Security status not satisfied''), (0x6983, ''Authentication method blocked''),
      (0x6984, ''Reference data not found''), (0x6985, ''Conditions of use not satisfied''),
      (0x6986, ''Command not allowed''), (0x6A82, ''File not found''),
      (0x6A83, ''Record not found''), (0x6A86, ''Incorrect P1-P2''),
      (0x6A88, ''Referenced data not found''), (0x6D00, ''Instruction not supported''),
      (0x6E00, ''Class not supported'')]"

definition getStatusDescription :: "responseAPDU \<Rightarrow> string" where
  "getStatusDescription r =
     (if sw1 r = 0x61 then ''More data available ('' @ numberToString 10 (sw2 r) @ '' bytes)''
      else case map_of statusMessages (sw r) of
             Some m \<Rightarrow> m
           | None \<Rightarrow> ''Unknown status: '' @ toUpperCase (numberToString 16 (sw r)))"


section \<open>EMV protocol engine\<close>

datatype transactionState =
  IDLE | APPLICATION_SELECTION | INITIATE_APPLICATION_PROCESSING | READ_APPLICATION_DATA
  | OFFLINE_DATA_AUTHENTICATION | PROCESSING_RESTRICTIONS | CARDHOLDER_VERIFICATION
  | TERMINAL_RISK_MANAGEMENT | TERMINAL_ACTION_ANALYSIS | CARD_ACTION_ANALYSIS
  | ONLINE_PROCESSING | ISSUER_SCRIPT_PROCESSING | COMPLETION | ERROR

definition KernelID_C8 :: int where
  "KernelID_C8 = 0x08"

record engineOptions =
  strictValidation :: bool
  recordTimings :: bool
  detectInteropIssues :: bool

definition defaultOptions :: engineOptions where
  "defaultOptions = \<lparr>strictValidation = True, recordTimings = True, detectInteropIssues = True\<rparr>"

text \<open>
  The entries of the context's lists. The \<open>timestamp\<close> of a log entry and of an interop
  issue (a reading of the system clock) and the \<open>details\<close> payload of a log entry (a
  rendering of values the context holds anyway) are left out.
\<close>

record errorEntry =
  err_phase :: string
  err_sw :: "int option"
  err_message :: string

record warningEntry =
  warn_phase :: string
  warn_sfi :: int
  warn_record :: int
  warn_sw :: int
  warn_message :: string

record interopIssue =
  issue_state :: transactionState
  issue_type :: string
  issue_severity :: string
  issue_message :: string
  issue_recommendation :: string

record logEntry =
  log_state :: transactionState
  log_event :: string

record aflEntry =
  sfi :: int
  firstRecord :: "int option"
  lastRecord :: "int option"
  numODARecords :: "int option"

record recordEntry =
  rec_sfi :: int
  rec_record :: int
  rec_data :: "tlvObject list"

text \<open>
  The transaction context, with the fields the response processing reads or writes;
  \<open>null\<close> is \<open>None\<close>. \<open>cardData\<close>, a \<open>Map\<close>, is an association list in insertion
  order: \<open>set\<close> replaces the value of a key in place or appends a new key.
\<close>

record transactionContext =
  state :: transactionState
  kernel :: "int option"
  fci :: "tlvObject list option"
  pdol :: "dolEntry list option"
  aip :: "buffer option"
  afl :: "aflEntry list option"
  records :: "recordEntry list"
  cardData :: "(string \<times> string) list"
  cdol1 :: "dolEntry list option"
  cdol2 :: "dolEntry list option"
  cryptogram :: "buffer option"
  cryptogramType :: "int option"
  log :: "logEntry list"
  errors :: "errorEntry list"
  warnings :: "warningEntry list"
  interopIssues :: "interopIssue list"

definition newTransactionContext :: transactionContext where
  "newTransactionContext =
     \<lparr>state = IDLE, kernel = None, fci = None, pdol = None, aip = None, afl = None, records = [],
      cardData = [], cdol1 = None, cdol2 = None, cryptogram = None, cryptogramType = None,
      log = [], errors = [], warnings = [], interopIssues = []\<rparr>"

definition logEvent :: "transactionContext \<Rightarrow> string \<Rightarrow> transactionContext" where
  "logEvent ctx ev = ctx\<lparr>log := log ctx @ [\<lparr>log_state = state ctx, log_event = ev\<rparr>]\<rparr>"

fun addRecursive :: "tlvObject list \<Rightarrow> (string \<times> string) list \<Rightarrow> (string \<times> string) list" where
  "addRecursive [] cd = cd"
| "addRecursive (TLVObject tg th len val vh con kids # tlvs) cd =
     (let cd1 = AList.update th vh cd;
          cd2 = (if con \<and> length kids > 0 then addRecursive kids cd1 else cd1)
      in addRecursive tlvs cd2)"

definition addCardData :: "transactionContext \<Rightarrow> tlvObject list \<Rightarrow> transactionContext" where
  "addCardData ctx tlvArray = ctx\<lparr>cardData := addRecursive tlvArray (cardData ctx)\<rparr>"

definition recordInteropIssue ::
  "transactionContext \<Rightarrow> string \<Rightarrow> string \<Rightarrow> string \<Rightarrow> string \<Rightarrow> transactionContext" where
  "recordInteropIssue ctx ty sev msg recomm =
     ctx\<lparr>interopIssues := interopIssues ctx @
           [\<lparr>issue_state = state ctx, issue_type = ty, issue_severity = sev,
             issue_message = msg, issue_recommendation = recomm\<rparr>]\<rparr>"

definition validateFFI :: "engineOptions \<Rightarrow> transactionContext \<Rightarrow> tlvObject \<Rightarrow> transactionContext" where
  "validateFFI opts ctx ffiTag =
     (if \<not> detectInteropIssues opts then ctx
      else
        (let ffi = fromHex (valueHex ffiTag);
             ctx1 = (if length ffi < 4
                     then recordInteropIssue ctx ''FFI_LENGTH'' ''WARNING''
                            (''FFI length is '' @ numberToString 10 (int (length ffi)) @ '' bytes, expected 4'')
                            ''Verify FFI format per EMV specification''
                     else ctx);
             formFactor = bitAnd (toNumber (bufferAt ffi 1)) 0x0F;
             ctx2 = (if \<not> List.member [0x00, 0x01, 0x02, 0x03, 0x04, 0x05, 0x06] formFactor
                     then recordInteropIssue ctx1 ''FFI_INVALID_FORM_FACTOR'' ''ERROR''
                            (''Invalid form factor value: '' @ numberToString 10 formFactor)
                            ''Use standard form factor values per EMV spec''
                     else ctx1)
         in if kernel ctx2 = Some KernelID_C8
            then recordInteropIssue ctx2 ''FFI_C8_KERNEL'' ''INFO''
                   ''C8 kernel with FFI - verify legacy terminal compatibility''
                   ''Test with legacy terminals that may not support C8''
            else ctx2))"

definition validatePAR :: "engineOptions \<Rightarrow> transactionContext \<Rightarrow> tlvObject \<Rightarrow> transactionContext" where
  \<comment> \<open>\<open>valueHex\<close> has two digits per byte, so \<open>par.length / 2\<close> is an integer\<close>
  "validatePAR opts ctx parTag =
     (if \<not> detectInteropIssues opts then ctx
      else
        (let par = valueHex parTag;
             ctx1 = (if length par \<noteq> 58
                     then recordInteropIssue ctx ''PAR_LENGTH'' ''WARNING''
                            (''PAR length is '' @ numberToString 10 (int (length par div 2)) @ '' bytes, expected 29'')
                            ''Verify PAR format per EMV tokenization spec''
                     else ctx)
         in recordInteropIssue ctx1 ''PAR_LEGACY_CHECK'' ''INFO''
              ''PAR present - verify legacy terminal field handling''
              ''Legacy terminals may not recognize PAR tag (DF8101)''))"

definition processSelectResponse ::
  "engineOptions \<Rightarrow> nat \<Rightarrow> transactionContext \<Rightarrow> responseAPDU \<Rightarrow> js_error + bool \<times> transactionContext" where
  "processSelectResponse opts fuel ctx response =
     (if \<not> isSuccess response
      then Inr (False, ctx\<lparr>errors := errors ctx @
                  [\<lparr>err_phase = ''SELECT'', err_sw = Some (sw response),
                    err_message = getStatusDescription response\<rparr>],
                state := ERROR\<rparr>)
      else
        case parse fuel (toHex (data response)) of
          Inl e \<Rightarrow> Inl e
        | Inr fciTLV \<Rightarrow>
           (let ctx1 = addCardData (ctx\<lparr>fci := Some fciTLV\<rparr>) fciTLV in
            case (case findTag fciTLV ''9F38'' of
                    None \<Rightarrow> Inr ctx1
                  | Some pdolTag \<Rightarrow>
                     (case parseDOL (valueHex pdolTag) of
                        Inl e \<Rightarrow> Inl e
                      | Inr d \<Rightarrow> Inr (logEvent (ctx1\<lparr>pdol := Some d\<rparr>) ''PDOL_FOUND''))) of
              Inl e \<Rightarrow> Inl e
            | Inr ctx2 \<Rightarrow>
               (let ctx3 = (case findTag fciTLV ''9F2A'' of
                              None \<Rightarrow> ctx2
                            | Some kernelId \<Rightarrow>
                                logEvent (ctx2\<lparr>kernel := bufferAt (value_tlv kernelId) 0\<rparr>)
                                  ''KERNEL_IDENTIFIED'');
                    ctx4 = (case findTag fciTLV ''9F6E'' of
                              None \<Rightarrow> ctx3
                            | Some ffi \<Rightarrow> validateFFI opts (logEvent ctx3 ''FFI_FOUND'') ffi)
                in Inr (True, ctx4\<lparr>state := INITIATE_APPLICATION_PROCESSING\<rparr>))))"

fun parseAFL :: "buffer \<Rightarrow> aflEntry list" where
  \<comment> \<open>one entry per started group of four bytes; bytes missing from the last group are
      \<open>undefined\<close>\<close>
  "parseAFL [] = []"
| "parseAFL (b # bs) =
     \<lparr>sfi = shiftRight (bitAnd (uint b) 0xF8) 3, firstRecord = bufferAt bs 0,
      lastRecord = bufferAt bs 1, numODARecords = bufferAt bs 2\<rparr> # parseAFL (drop 3 bs)"

definition processGPOResponse ::
  "nat \<Rightarrow> transactionContext \<Rightarrow> responseAPDU \<Rightarrow> js_error + bool \<times> transactionContext" where
  "processGPOResponse fuel ctx response =
     (if \<not> isSuccess response
      then Inr (False, ctx\<lparr>errors := errors ctx @
                  [\<lparr>err_phase = ''GPO'', err_sw = Some (sw response),
                    err_message = getStatusDescription response\<rparr>],
                state := ERROR\<rparr>)
      else
        (let gpoData = data response;
             finish = (\<lambda>c. Inr (True, (logEvent c ''GPO_PROCESSED'')\<lparr>state := READ_APPLICATION_DATA\<rparr>))
         in if bufferAt gpoData 0 = Some 0x80 then
              (let aipBytes = slice gpoData 2 4;
                   aflBytes = (case bufferAt gpoData 1 of
                                 None \<Rightarrow> sliceNaN gpoData 4
                               | Some len \<Rightarrow> slice gpoData 4 (2 + len))
               in finish (ctx\<lparr>aip := Some aipBytes, afl := Some (parseAFL aflBytes)\<rparr>))
            else if bufferAt gpoData 0 = Some 0x77 then
              (case parse fuel (toHex gpoData) of
                 Inl e \<Rightarrow> Inl e
               | Inr tlvData \<Rightarrow>
                  (let ctx1 = addCardData ctx tlvData;
                       ctx2 = (case findTag tlvData ''82'' of
                                 None \<Rightarrow> ctx1
                               | Some aipTag \<Rightarrow> ctx1\<lparr>aip := Some (fromHex (valueHex aipTag))\<rparr>);
                       ctx3 = (case findTag tlvData ''94'' of
                                 None \<Rightarrow> ctx2
                               | Some aflTag \<Rightarrow> ctx2\<lparr>afl := Some (parseAFL (fromHex (valueHex aflTag)))\<rparr>)
                   in finish ctx3))
            else
              (case bufferAt gpoData 0 of
                 None \<Rightarrow> Inl TypeError
               | Some b \<Rightarrow>
                   Inr (False, ctx\<lparr>errors := errors ctx @
                          [\<lparr>err_phase = ''GPO'', err_sw = None,
                            err_message = ''Unknown GPO response format: '' @ numberToString 16 b\<rparr>],
                        state := ERROR\<rparr>))))"

definition processReadRecordResponse ::
  "engineOptions \<Rightarrow> nat \<Rightarrow> transactionContext \<Rightarrow> responseAPDU \<Rightarrow> int \<Rightarrow> int
     \<Rightarrow> js_error + bool \<times> transactionContext" where
  "processReadRecordResponse opts fuel ctx response sfiArg recordArg =
     (if \<not> isSuccess response
      then Inr (False, ctx\<lparr>warnings := warnings ctx @
                  [\<lparr>warn_phase = ''READ_RECORD'', warn_sfi = sfiArg, warn_record = recordArg,
                    warn_sw = sw response, warn_message = getStatusDescription response\<rparr>]\<rparr>)
      else
        case parse fuel (toHex (data response)) of
          Inl e \<Rightarrow> Inl e
        | Inr recordTLV \<Rightarrow>
           (let ctx1 = addCardData
                         (ctx\<lparr>records := records ctx @
                                [\<lparr>rec_sfi = sfiArg, rec_record = recordArg, rec_data = recordTLV\<rparr>]\<rparr>)
                         recordTLV
            in case (case findTag recordTLV ''8C'' of
                       None \<Rightarrow> Inr ctx1
                     | Some cdol1Tag \<Rightarrow>
                        (case parseDOL (valueHex cdol1Tag) of
                           Inl e \<Rightarrow> Inl e
                         | Inr d \<Rightarrow> Inr (logEvent (ctx1\<lparr>cdol1 := Some d\<rparr>) ''CDOL1_FOUND''))) of
                 Inl e \<Rightarrow> Inl e
               | Inr ctx2 \<Rightarrow>
                  (case (case findTag recordTLV ''8D'' of
                           None \<Rightarrow> Inr ctx2
                         | Some cdol2Tag \<Rightarrow>
                            (case parseDOL (valueHex cdol2Tag) of
                               Inl e \<Rightarrow> Inl e
                             | Inr d \<Rightarrow> Inr (logEvent (ctx2\<lparr>cdol2 := Some d\<rparr>) ''CDOL2_FOUND''))) of
                     Inl e \<Rightarrow> Inl e
                   | Inr ctx3 \<Rightarrow>
                      (let ctx4 = (case findTag recordTLV ''DF8101'' of
                                     None \<Rightarrow> ctx3
                                   | Some parTag \<Rightarrow> validatePAR opts (logEvent ctx3 ''PAR_FOUND'') parTag)
                       in Inr (True, ctx4)))))"

definition processGenACResponse ::
  "nat \<Rightarrow> transactionContext \<Rightarrow> responseAPDU \<Rightarrow> js_error + bool \<times> transactionContext" where
  "processGenACResponse fuel ctx response =
     (if \<not> isSuccess response
      then Inr (False, ctx\<lparr>errors := errors ctx @
                  [\<lparr>err_phase = ''GENERATE_AC'', err_sw = Some (sw response),
                    err_message = getStatusDescription response\<rparr>],
                state := ERROR\<rparr>)
      else
        (let acData = data response;
             finish = (\<lambda>c. Inr (True, (logEvent c ''AC_GENERATED'')\<lparr>state := COMPLETION\<rparr>))
         in if bufferAt acData 0 = Some 0x80 then
              (let cid = bufferAt acData 2
               in finish (ctx\<lparr>cryptogramType := Some (bitAnd (toNumber cid) 0xC0),
                            cryptogram := Some (slice acData 3 11)\<rparr>))
            else if bufferAt acData 0 = Some 0x77 then
              (case parse fuel (toHex acData) of
                 Inl e \<Rightarrow> Inl e
               | Inr tlvData \<Rightarrow>
                  (let ctx1 = addCardData ctx tlvData;
                       ctx2 = (case findTag tlvData ''9F27'' of
                                 None \<Rightarrow> ctx1
                               | Some cidTag \<Rightarrow>
                                   ctx1\<lparr>cryptogramType :=
                                          Some (bitAnd (toNumber (bufferAt (value_tlv cidTag) 0)) 0xC0)\<rparr>);
                       ctx3 = (case findTag tlvData ''9F26'' of
                                 None \<Rightarrow> ctx2
                               | Some acTag \<Rightarrow> ctx2\<lparr>cryptogram := Some (fromHex (valueHex acTag))\<rparr>)
                   in finish ctx3))
            else finish ctx))"


subsection \<open>Comparing results up to the interop issues\<close>

definition ignoringIssues ::
  "js_error + bool \<times> transactionContext \<Rightarrow> js_error + bool \<times> transactionContext" where
  "ignoringIssues r = (case r of Inl e \<Rightarrow> Inl e | Inr (ok, c) \<Rightarrow> Inr (ok, c\<lparr>interopIssues := []\<rparr>))"

subsection \<open>What a validation recorded\<close>

definition issuesRecorded :: "transactionContext \<Rightarrow> transactionContext \<Rightarrow> (string \<times> string) list" where
  \<comment> \<open>type and severity of the interop issues that \<open>after\<close> holds beyond those of \<open>before\<close>\<close>
  "issuesRecorded before after =
     map (\<lambda>i. (issue_type i, issue_severity i))
       (drop (length (interopIssues before)) (interopIssues after))"

definition formFactor :: "buffer \<Rightarrow> int" where
  \<comment> \<open>\<open>ffi[1] & 0x0F\<close>\<close>
  "formFactor ffi = bitAnd (toNumber (bufferAt ffi 1)) 0x0F"

subsection \<open>Commands that one short APDU can carry\<close>

definition validCommand :: "commandAPDU \<Rightarrow> bool" where
  \<comment> \<open>the header fields are bytes, the data when present has at most 255 bytes and is not
      empty unless Le is present, and Le when present is in 0..256\<close>
  "validCommand c =
     (0 \<le> cla c \<and> cla c < 256 \<and> 0 \<le> ins c \<and> ins c < 256
      \<and> 0 \<le> p1 c \<and> p1 c < 256 \<and> 0 \<le> p2 c \<and> p2 c < 256
      \<and> (case cdata c of None \<Rightarrow> True | Some d \<Rightarrow> length d < 256 \<and> (d = [] \<longrightarrow> le c \<noteq> None))
      \<and> (case le c of None \<Rightarrow> True | Some l \<Rightarrow> 0 \<le> l \<and> l \<le> 256))"

definition normalisedLe :: "int option \<Rightarrow> int option" where
  \<comment> \<open>Le as it is read back: 0 and 256 are both written as the byte 0x00, read as 256\<close>
  "normalisedLe l = map_option (\<lambda>k. if k = 0 then 256 else k) l"

subsection \<open>What DOL materialization is to produce\<close>

text \<open>
  The specification's words for \<open>buildDOLData\<close>: per entry, the supplied value fitted to
  the entry's length. An entry whose length is \<open>undefined\<close> (the DOL ended after its tag)
  has no length to fit to; the code then pushes the supplied bytes as they are.
\<close>

definition suppliedValue :: "(string \<rightharpoonup> string) \<Rightarrow> dolEntry \<Rightarrow> buffer" where
  \<comment> \<open>the bytes supplied for an entry's tag: none when the map has no value for it\<close>
  "suppliedValue values entry =
     (case values (dol_tagHex entry) of None \<Rightarrow> [] | Some s \<Rightarrow> fromHex (removeWhitespace s))"

definition fitLeft :: "nat \<Rightarrow> buffer \<Rightarrow> buffer" where
  \<comment> \<open>exactly \<open>n\<close> bytes: zero-padded on the left when shorter, the rightmost \<open>n\<close>
      bytes when longer\<close>
  "fitLeft n bs =
     (if length bs < n then replicate (n - length bs) 0 @ bs else drop (length bs - n) bs)"

definition expectedEntry :: "(string \<rightharpoonup> string) \<Rightarrow> dolEntry \<Rightarrow> buffer" where
  "expectedEntry values entry =
     (case dol_length entry of
        None \<Rightarrow> suppliedValue values entry
      | Some n \<Rightarrow> fitLeft n (suppliedValue values entry))"

subsection \<open>Well-formed tags\<close>

definition tagNumber :: "buffer \<Rightarrow> int" where
  \<comment> \<open>the tag bytes read as one big-endian number\<close>
  "tagNumber bs = foldl (\<lambda>a b. 256 * a + uint b) 0 bs"

definition wellFormedTag :: "buffer \<Rightarrow> bool" where
  \<comment> \<open>a tag of one byte (low five bits not all set), or of several bytes (low five bits of
      the first all set, high bit set in every further byte but the last), that does not
      start with a padding byte 0x00 or 0xFF and whose number fits the signed 32-bit
      integer the parser keeps it in: at most four bytes, the first below 0x80 when there
      are four\<close>
  "wellFormedTag bs =
     (case bs of
        [] \<Rightarrow> False
      | b # others \<Rightarrow>
          if others = [] then b \<noteq> 0x00 \<and> b AND 0x1F \<noteq> 0x1F
          else b \<noteq> 0xFF \<and> b AND 0x1F = 0x1F
             \<and> list_all (\<lambda>c. c AND 0x80 = 0x80) (butlast others) \<and> last others AND 0x80 = 0x00
             \<and> tagNumber bs < 2147483648)"

definition constructedBit :: "buffer \<Rightarrow> bool" where
  \<comment> \<open>bit 0x20 of the first tag byte\<close>
  "constructedBit bs = (case bs of [] \<Rightarrow> False | b # _ \<Rightarrow> b AND 0x20 = 0x20)"

definition constructedAsParsed :: "buffer \<Rightarrow> bool" where
  \<comment> \<open>bit 0x20 of the byte that \<open>isConstructedTag\<close> looks at: the only byte of a one-byte
      tag, and the last byte but one of a longer tag\<close>
  "constructedAsParsed bs =
     (if length bs < 2 then constructedBit bs else last (butlast bs) AND 0x20 = 0x20)"

subsection \<open>Length fields\<close>

definition bigEndian :: "buffer \<Rightarrow> int" where
  "bigEndian bs = foldl (\<lambda>a b. 256 * a + uint b) 0 bs"

definition wellFormedLength :: "buffer \<Rightarrow> bool" where
  \<comment> \<open>a complete length field: one byte below 0x80, or a byte \<open>0x80 + k\<close> followed by \<open>k\<close>
      bytes whose number fits a signed 32-bit integer\<close>
  "wellFormedLength lf =
     (case lf of
        [] \<Rightarrow> False
      | f # others \<Rightarrow>
          if f AND 0x80 = 0x00 then others = []
          else length others = unat (f AND 0x7F) \<and> bigEndian others < 2147483648)"

definition declaredLength :: "buffer \<Rightarrow> nat" where
  \<comment> \<open>the length a complete length field declares\<close>
  "declaredLength lf =
     (case lf of
        [] \<Rightarrow> 0
      | f # others \<Rightarrow> if f AND 0x80 = 0x00 then unat f else nat (bigEndian others))"

subsection \<open>Node trees that round-trip\<close>

text \<open>
  A tag string is valid when it is the hexadecimal text of a well-formed tag on which the
  parser's constructed test reads the bit of the first byte: every well-formed tag of one or
  two bytes, and those of three or four bytes whose last byte but one has the same bit 0x20
  as the first. A node is valid when its tag is valid and carries the constructed bit exactly
  when the node was added with \<open>addConstructed\<close>, and when its value is shorter than \<open>2^24\<close>
  bytes, the longest value \<open>encodeLength\<close> can describe. \<open>encodeNode\<close> is the byte sequence of one
  node, and \<open>expectedObject\<close> the object that stands for a node after decoding: the same tag,
  length, value and children.
\<close>

definition validTag :: "string \<Rightarrow> bool" where
  "validTag tHex =
     (wellFormedTag (fromHex tHex) \<and> toUpperCase (toHex (fromHex tHex)) = toUpperCase tHex
      \<and> constructedAsParsed (fromHex tHex) = constructedBit (fromHex tHex))"

fun encodeNode :: "node \<Rightarrow> buffer" where
  "encodeNode (Primitive tHex v) = fromHex tHex @ encodeLength (length v) @ v"
| "encodeNode (Constructed tHex kids) =
     fromHex tHex @ encodeLength (length (buildNodes kids)) @ buildNodes kids"

fun validNode :: "node \<Rightarrow> bool"
  and validNodes :: "node list \<Rightarrow> bool" where
  "validNode (Primitive tHex v) =
     (validTag tHex \<and> \<not> constructedBit (fromHex tHex) \<and> length v < 16777216)"
| "validNode (Constructed tHex kids) =
     (validTag tHex \<and> constructedBit (fromHex tHex) \<and> validNodes kids
        \<and> length (buildNodes kids) < 16777216)"
| "validNodes [] = True"
| "validNodes (n # ns) = (validNode n \<and> validNodes ns)"

fun expectedObject :: "node \<Rightarrow> tlvObject"
  and expectedObjects :: "node list \<Rightarrow> tlvObject list" where
  "expectedObject (Primitive tHex v) =
     TLVObject (tagNumber (fromHex tHex)) (toUpperCase tHex) (Some (int (length v))) v
       (toUpperCase (toHex v)) False []"
| "expectedObject (Constructed tHex kids) =
     TLVObject (tagNumber (fromHex tHex)) (toUpperCase tHex) (Some (int (length (buildNodes kids))))
       (buildNodes kids) (toUpperCase (toHex (buildNodes kids))) True (expectedObjects kids)"
| "expectedObjects [] = []"
| "expectedObjects (n # ns) = expectedObject n # expectedObjects ns"

section \<open>Auxiliary facts\<close>

subsection \<open>Bitwise operators on small non-negative numbers\<close>

lemma toInt32_id: "- 2147483648 \<le> k \<Longrightarrow> k < 2147483648 \<Longrightarrow> toInt32 k = k"
  by (simp add: toInt32_def signed_take_bit_int_eq_self)

lemma uint_byte_bounds: "0 \<le> uint (b :: byte)" "uint (b :: byte) < 256"
  using uint_bounded [of b] by simp_all

lemma toInt32_uint [simp]: "toInt32 (uint (b :: byte)) = uint b"
proof -
  have "- 2147483648 \<le> uint b" "uint b < 2147483648"
    using uint_byte_bounds [of b] by linarith+
  then show ?thesis by (rule toInt32_id)
qed

lemma bitAnd_nonneg: 
  assumes "0 \<le> a" "a < 2147483648" "0 \<le> c" "c < 2147483648" shows "bitAnd a c = a AND c"
proof -
  have "0 \<le> a AND c" using assms by simp
  moreover have "a AND c \<le> a" using assms by (simp add: AND_upper1)
  ultimately have "toInt32 (a AND c) = a AND c" using assms by (intro toInt32_id) linarith+
  then show ?thesis using assms by (simp add: bitAnd_def toInt32_id)
qed

lemma bitAnd_bytes: "bitAnd (uint (b::byte)) (uint (c::byte)) = uint (b AND c)"
  using toInt32_uint [of "b AND c"] by (simp add: bitAnd_def uint_and)

lemma bitAnd_byte_test: "(bitAnd (uint (b::byte)) (uint (c::byte)) = uint (d::byte)) = (b AND c = d)"
  by (simp add: bitAnd_bytes word_uint_eq_iff)

lemma mul_and_low: 
  assumes "0 \<le> (b::int)" "b < 2 ^ n" shows "(a * 2 ^ n) AND b = 0"
proof -
  have "push_bit n a AND take_bit n b = 0"
    by (rule bit_eqI) (auto simp add: bit_and_iff bit_push_bit_iff bit_take_bit_iff)
  moreover have "take_bit n b = b" using assms by (simp add: take_bit_int_eq_self)
  ultimately show ?thesis by (simp add: push_bit_eq_mult)
qed

lemma mul_or_low: "0 \<le> (b::int) \<Longrightarrow> b < 2 ^ n \<Longrightarrow> (a * 2 ^ n) OR b = a * 2 ^ n + b"
  using mul_and_low [of b n a] by (simp add: disjunctive_add_eq_or)

lemma and_pow2: "0 \<le> (k::int) \<Longrightarrow> k < 2 ^ n \<Longrightarrow> k AND 2 ^ n = 0"
  using mul_and_low [of k n 1] by (simp add: and.commute)

lemma shiftRight_nonneg: "0 \<le> a \<Longrightarrow> a < 2147483648 \<Longrightarrow> shiftRight a n = a div 2 ^ n"
  by (simp add: shiftRight_def toInt32_id drop_bit_eq_div)

lemma and_mask_mod: "(k::int) AND (2 ^ n - 1) = k mod 2 ^ n"
  by (simp add: take_bit_eq_mod [symmetric] take_bit_eq_mask mask_eq_exp_minus_1)

lemma and_255: "(k::int) AND 255 = k mod 256"
  using and_mask_mod [of k 8] by simp

lemma and_127: "(k::int) AND 127 = k mod 128"
  using and_mask_mod [of k 7] by simp

lemma bitOr_shift:
  assumes "0 \<le> a" "a < 8388608" "0 \<le> b" "b < 256"
  shows "bitOr (shiftLeft a 8) b = 256 * a + b"
proof -
  have s: "shiftLeft a 8 = a * 2 ^ 8"
    using assms by (simp add: shiftLeft_def toInt32_id push_bit_eq_mult)
  have "a * 2 ^ 8 OR b = a * 2 ^ 8 + b"
    using assms by (intro mul_or_low) simp_all
  then show ?thesis
    using assms by (simp add: s bitOr_def toInt32_id)
qed


subsection \<open>Hexadecimal text\<close>

lemma hexValue_hexDigit: "n < 16 \<Longrightarrow> hexValue (hexDigit n) = Some n"
  by (auto simp add: hexValue_def hexDigit_def Let_def)

lemma hexValue_toUpperChar: "hexValue (toUpperChar c) = hexValue c"
  by (auto simp add: hexValue_def toUpperChar_def Let_def)

lemma fromHex_toUpperCase: "fromHex (toUpperCase s) = fromHex s"
  by (induction s rule: fromHex.induct) (simp_all add: toUpperCase_def hexValue_toUpperChar split: option.splits)

lemma byte_of_nibbles: "word_of_nat (16 * (unat (b::byte) div 16) + unat b mod 16) = b"
  by simp

lemma unat_byte_bound: "unat (b::byte) < 256"
  using unsigned_less [of b, where ?'a = nat] by simp

lemma nibble_hi: "unat (b::byte) div 16 < 16"
  using unat_byte_bound [of b] by simp

lemma fromHex_toHex: "fromHex (toHex bs) = bs"
  by (induction bs) (simp_all add: toHex_def hexValue_hexDigit nibble_hi)

lemma fromHex_upper_toHex: "fromHex (toUpperCase (toHex bs)) = bs"
  by (simp add: fromHex_toUpperCase fromHex_toHex)

lemma isWhitespace_hexDigit: "n < 16 \<Longrightarrow> \<not> isWhitespace (hexDigit n)"
  by (auto simp add: isWhitespace_def hexDigit_def Let_def)

lemma removeWhitespace_toHex: "removeWhitespace (toHex bs) = toHex bs"
  by (induction bs) (simp_all add: toHex_def removeWhitespace_def isWhitespace_hexDigit nibble_hi)

lemma length_toHex: "length (toHex bs) = 2 * length bs"
  by (induction bs) (simp_all add: toHex_def)

lemma hexDigit_eval:
  "hexDigit 0 = CHR ''0'' "
  "hexDigit 1 = CHR ''1'' "
  "hexDigit 2 = CHR ''2'' "
  "hexDigit 3 = CHR ''3'' "
  "hexDigit 4 = CHR ''4'' "
  "hexDigit 5 = CHR ''5'' "
  "hexDigit 6 = CHR ''6'' "
  "hexDigit 7 = CHR ''7'' "
  "hexDigit 8 = CHR ''8'' "
  "hexDigit 9 = CHR ''9'' "
  "hexDigit 10 = CHR ''a'' "
  "hexDigit 11 = CHR ''b'' "
  "hexDigit 12 = CHR ''c'' "
  "hexDigit 13 = CHR ''d'' "
  "hexDigit 14 = CHR ''e'' "
  "hexDigit 15 = CHR ''f''"
  "hexDigit (Suc 0) = CHR ''1''"
  by code_simp+

lemma toUpperChar_eval:
  "toUpperChar CHR ''0'' = CHR ''0'' "
  "toUpperChar CHR ''1'' = CHR ''1'' "
  "toUpperChar CHR ''2'' = CHR ''2'' "
  "toUpperChar CHR ''3'' = CHR ''3'' "
  "toUpperChar CHR ''4'' = CHR ''4'' "
  "toUpperChar CHR ''5'' = CHR ''5'' "
  "toUpperChar CHR ''6'' = CHR ''6'' "
  "toUpperChar CHR ''7'' = CHR ''7'' "
  "toUpperChar CHR ''8'' = CHR ''8'' "
  "toUpperChar CHR ''9'' = CHR ''9'' "
  "toUpperChar CHR ''a'' = CHR ''A'' "
  "toUpperChar CHR ''b'' = CHR ''B'' "
  "toUpperChar CHR ''c'' = CHR ''C'' "
  "toUpperChar CHR ''d'' = CHR ''D'' "
  "toUpperChar CHR ''e'' = CHR ''E'' "
  "toUpperChar CHR ''f'' = CHR ''F'' "
  "toUpperChar CHR ''A'' = CHR ''A'' "
  "toUpperChar CHR ''B'' = CHR ''B'' "
  "toUpperChar CHR ''C'' = CHR ''C'' "
  "toUpperChar CHR ''D'' = CHR ''D'' "
  "toUpperChar CHR ''E'' = CHR ''E'' "
  "toUpperChar CHR ''F'' = CHR ''F''"
  by code_simp+

lemma hexValue_eval:
  "hexValue CHR ''0'' = Some 0 "
  "hexValue CHR ''1'' = Some 1 "
  "hexValue CHR ''2'' = Some 2 "
  "hexValue CHR ''3'' = Some 3 "
  "hexValue CHR ''4'' = Some 4 "
  "hexValue CHR ''5'' = Some 5 "
  "hexValue CHR ''6'' = Some 6 "
  "hexValue CHR ''7'' = Some 7 "
  "hexValue CHR ''8'' = Some 8 "
  "hexValue CHR ''9'' = Some 9 "
  "hexValue CHR ''a'' = Some 10 "
  "hexValue CHR ''b'' = Some 11 "
  "hexValue CHR ''c'' = Some 12 "
  "hexValue CHR ''d'' = Some 13 "
  "hexValue CHR ''e'' = Some 14 "
  "hexValue CHR ''f'' = Some 15 "
  "hexValue CHR ''A'' = Some 10 "
  "hexValue CHR ''B'' = Some 11 "
  "hexValue CHR ''C'' = Some 12 "
  "hexValue CHR ''D'' = Some 13 "
  "hexValue CHR ''E'' = Some 14 "
  "hexValue CHR ''F'' = Some 15"
  by code_simp+

subsection \<open>Reading the first byte of a response\<close>

lemma bufferAt_Cons_0: "bufferAt (b # bs) 0 = Some (uint b)"
  by (simp add: bufferAt_def)

lemma first_byte_test: "(bufferAt (b # bs) 0 = Some (uint (c::byte))) = (b = c)"
  by (simp add: bufferAt_Cons_0 word_uint_eq_iff)

lemma isSuccess_9000: "isSuccess \<lparr>data = d, sw1 = 0x90, sw2 = 0x00\<rparr>"
  by (simp add: isSuccess_def sw_def SW_isSuccess_def bitOr_def shiftLeft_def toInt32_def)

subsection \<open>Interop-issue detection only adds issues\<close>

lemma recordInteropIssue_only: "(recordInteropIssue c ty sev msg rc)\<lparr>interopIssues := xs\<rparr> = c\<lparr>interopIssues := xs\<rparr>"
  by (simp add: recordInteropIssue_def)

lemma recordInteropIssue_fields [simp]:
  "state (recordInteropIssue c ty sev msg rc) = state c"
  "kernel (recordInteropIssue c ty sev msg rc) = kernel c"
  by (simp_all add: recordInteropIssue_def)

lemma validateFFI_only: "(validateFFI opts c t)\<lparr>interopIssues := xs\<rparr> = c\<lparr>interopIssues := xs\<rparr>"
  by (simp add: validateFFI_def Let_def recordInteropIssue_only)

lemma validatePAR_only: "(validatePAR opts c t)\<lparr>interopIssues := xs\<rparr> = c\<lparr>interopIssues := xs\<rparr>"
  by (simp add: validatePAR_def Let_def recordInteropIssue_only)

lemma validateFFI_frame: "validateFFI opts c t = c\<lparr>interopIssues := interopIssues (validateFFI opts c t)\<rparr>"
  using validateFFI_only [where xs = "interopIssues (validateFFI opts c t)" and opts = opts and c = c and t = t] by simp

lemma validatePAR_frame: "validatePAR opts c t = c\<lparr>interopIssues := interopIssues (validatePAR opts c t)\<rparr>"
  using validatePAR_only [where xs = "interopIssues (validatePAR opts c t)" and opts = opts and c = c and t = t] by simp

lemma validateFFI_state_only:
  "(validateFFI opts c t)\<lparr>state := s, interopIssues := xs\<rparr> = c\<lparr>state := s, interopIssues := xs\<rparr>"
  by (subst validateFFI_frame) simp

lemma select_ignoring:
  "ignoringIssues (processSelectResponse opts fuel ctx response)
     = ignoringIssues (processSelectResponse opts' fuel ctx response)"
  by (simp add: processSelectResponse_def ignoringIssues_def Let_def validateFFI_state_only
      split: sum.splits option.splits)

lemma read_ignoring:
  "ignoringIssues (processReadRecordResponse opts fuel ctx response s r)
     = ignoringIssues (processReadRecordResponse opts' fuel ctx response s r)"
  by (simp add: processReadRecordResponse_def ignoringIssues_def Let_def validatePAR_only
      split: sum.splits option.splits)


lemma not_isSuccess_6A82: "\<not> isSuccess \<lparr>data = d, sw1 = 0x6A, sw2 = 0x82\<rparr>"
  by (simp add: isSuccess_def sw_def SW_isSuccess_def bitOr_def shiftLeft_def toInt32_def)

lemma sw_6A82: "sw \<lparr>data = d, sw1 = 0x6A, sw2 = 0x82\<rparr> = 0x6A82"
  by (simp add: sw_def bitOr_def shiftLeft_def toInt32_def)

lemma description_6A82: "getStatusDescription \<lparr>data = d, sw1 = 0x6A, sw2 = 0x82\<rparr> = ''File not found''"
  by (simp add: getStatusDescription_def sw_6A82 statusMessages_def)

subsection \<open>Recording an interop issue\<close>

lemma bitAnd_0F: "bitAnd (uint (b::byte)) 0x0F = uint (b AND 0x0F)"
  using bitAnd_bytes [of b "0x0F"] by simp

lemma issuesRecorded_record:
  "interopIssues (recordInteropIssue c ty sev msg rc)
     = interopIssues c @ [\<lparr>issue_state = state c, issue_type = ty, issue_severity = sev,
                           issue_message = msg, issue_recommendation = rc\<rparr>]"
  by (simp add: recordInteropIssue_def)

subsection \<open>Bytes, slices and the Le byte\<close>

lemma uint_byte_of_int: "0 \<le> k \<Longrightarrow> k < 256 \<Longrightarrow> uint (word_of_int k :: byte) = k"
  by (simp add: uint_word_of_int take_bit_int_eq_self)

lemma unat_byte_of_nat: "n < 256 \<Longrightarrow> unat (word_of_nat n :: byte) = n"
  by (simp add: unat_of_nat take_bit_nat_eq_self)

lemma byte_of_int_eq_0:
  assumes "0 \<le> k" "k < 256"
  shows "((word_of_int k :: byte) = 0) = (k = 0)"
proof -
  have u: "uint (word_of_int k :: byte) = k"
    using assms by (rule uint_byte_of_int)
  have "((word_of_int k :: byte) = 0) = (uint (word_of_int k :: byte) = 0)"
    by (simp add: uint_0_iff)
  then show ?thesis by (simp add: u)
qed

lemma adjustOffset_le: "k \<le> n \<Longrightarrow> adjustOffset (int k) n = k"
  by (simp add: adjustOffset_def)

lemma slice_middle:
  assumes "start = int (length xs)" and "fin = start + int (length v)"
  shows "slice (xs @ v @ suf) start fin = v"
proof -
  have s: "adjustOffset start (length (xs @ v @ suf)) = length xs"
    using assms(1) by (simp add: adjustOffset_le)
  have "fin = int (length xs + length v)"
    using assms by simp
  then have e: "adjustOffset fin (length (xs @ v @ suf)) = length xs + length v"
    by (simp only: adjustOffset_le length_append le_add1 add_le_cancel_left)
  show ?thesis
    by (simp only: slice_def Let_def s e) simp
qed

lemma leByte_eq_0: "0 \<le> l \<Longrightarrow> l \<le> 256 \<Longrightarrow> (leByte (Some l) = 0) = (l = 0 \<or> l = 256)"
  by (cases "l = 256") (simp_all add: leByte_def toNumber_def byte_of_int_eq_0)

lemma uint_leByte: "0 \<le> l \<Longrightarrow> l < 256 \<Longrightarrow> uint (leByte (Some l)) = l"
  by (simp add: leByte_def toNumber_def uint_byte_of_int)

lemma slice_after_header:
  "slice (a # b # c # d # e # v @ suf) 5 (5 + int (length v)) = v"
  using slice_middle [of 5 "[a, b, c, d, e]" "5 + int (length v)" v suf] by simp

lemma slice_after_header_end:
  "slice (a # b # c # d # e # v) 5 (5 + int (length v)) = v"
  using slice_after_header [of a b c d e v "[]"] by simp

lemma nth_after_header: "(a # b # c # d # e # v @ x # suf) ! (5 + length v) = x"
proof -
  have "(([a, b, c, d, e] @ v) @ x # suf) ! length ([a, b, c, d, e] @ v) = x"
    by (rule nth_append_length)
  then show ?thesis by (simp add: add.commute)
qed

subsection \<open>DOL materialization, entry by entry\<close>

lemma fromHex_zeros: "fromHex (removeWhitespace (repeat ''00'' n)) = replicate n 0"
  by (induction n) (simp_all add: repeat_def removeWhitespace_def isWhitespace_def hexValue_eval)

lemma length_fitLeft: "length (fitLeft n bs) = n"
  by (simp add: fitLeft_def)

lemma copyInto_zeros:
  "length bs < n \<Longrightarrow> copyInto bs (replicate n 0) (n - length bs) = replicate (n - length bs) 0 @ bs"
  by (simp add: copyInto_def Let_def min_def)

lemma sliceFrom_drop: "k \<le> length bs \<Longrightarrow> sliceFrom bs (int (length bs) - int k) = drop (length bs - k) bs"
  by (simp add: sliceFrom_def adjustOffset_def nat_diff_distrib')

lemma removeWhitespace_Nil: "removeWhitespace [] = []"
  by (simp add: removeWhitespace_def)

lemma buildEntry_expected: "buildEntry values entry = expectedEntry values entry"
proof (cases "dol_length entry")
  case None
  then show ?thesis
    by (simp add: buildEntry_def expectedEntry_def suppliedValue_def Let_def fromHex_zeros
        removeWhitespace_Nil split: option.splits)
next
  case (Some n)
  show ?thesis
  proof (cases "values (dol_tagHex entry)")
    case None
    with Some show ?thesis
      by (simp add: buildEntry_def expectedEntry_def suppliedValue_def Let_def fromHex_zeros fitLeft_def)
  next
    case (Some s)
    show ?thesis
    proof (cases "s = []")
      case True
      with Some \<open>dol_length entry = Some n\<close> show ?thesis
        by (simp add: buildEntry_def expectedEntry_def suppliedValue_def Let_def fromHex_zeros
            fitLeft_def removeWhitespace_Nil)
    next
      case False
      with Some \<open>dol_length entry = Some n\<close> show ?thesis
        by (simp add: buildEntry_def expectedEntry_def suppliedValue_def Let_def
            fitLeft_def copyInto_zeros sliceFrom_drop)
    qed
  qed
qed


lemma buildEntry_expected_fun: "buildEntry values = expectedEntry values"
  by (rule ext) (rule buildEntry_expected)

subsection \<open>One iteration of the parser\<close>

lemma parseBuffer_end:
  "\<not> offset < endOffset \<Longrightarrow> parseBuffer (Suc fuel) buf offset endOffset = Inr []"
  by simp

lemma parseBuffer_node:
  assumes "offset < endOffset"
    and "bufferAt buf offset \<noteq> Some 0x00" and "bufferAt buf offset \<noteq> Some 0xFF"
    and "parseTag buf offset = (Some t, tagLength)"
    and "parseLength buf (offset + tagLength) = (Some l, lengthBytes)"
    and "slice buf (offset + tagLength + lengthBytes) (offset + tagLength + lengthBytes + l) = v"
  shows "parseBuffer (Suc fuel) buf offset endOffset =
     (case (if isConstructedTag t then parseBuffer fuel v 0 (int (length v)) else Inr []) of
        Inl e \<Rightarrow> Inl e
      | Inr kids \<Rightarrow>
         (case parseBuffer fuel buf (offset + tagLength + lengthBytes + l) endOffset of
            Inl e \<Rightarrow> Inl e
          | Inr rest \<Rightarrow>
              Inr (TLVObject t (tagToHex t) (Some l) v (toUpperCase (toHex v))
                     (isConstructedTag t) kids # rest)))"
  using assms by (cases "isConstructedTag t") (simp_all add: Let_def split: sum.splits)

declare parseBuffer.simps [simp del]

lemmas js_bits = bitAnd_def bitOr_def shiftLeft_def shiftRight_def toInt32_def toNumber_def

subsection \<open>Big-endian numbers\<close>

lemma bigEndian_fold_ge: "0 \<le> a \<Longrightarrow> a \<le> foldl (\<lambda>a b. 256 * a + uint b) a (bs::buffer)"
proof (induction bs arbitrary: a)
  case Nil
  show ?case by simp
next
  case (Cons b bs)
  have "0 \<le> 256 * a + uint b" "a \<le> 256 * a + uint b"
    using Cons.prems uint_byte_bounds [of b] by linarith+
  then show ?case
    using Cons.IH [of "256 * a + uint b"] by simp
qed

lemma tagNumber_snoc: "tagNumber (bs @ [b]) = 256 * tagNumber bs + uint b"
  by (simp add: tagNumber_def)

lemma tagNumber_nonneg: "0 \<le> tagNumber bs"
  using bigEndian_fold_ge [of 0 bs] by (simp add: tagNumber_def)

lemma tagNumber_ge_first: "uint b \<le> tagNumber (b # bs)"
  using bigEndian_fold_ge [of "uint b" bs] uint_byte_bounds [of b] by (simp add: tagNumber_def)

lemma bigEndian_tagNumber: "bigEndian bs = tagNumber bs"
  by (simp add: bigEndian_def tagNumber_def)

subsection \<open>Parsing a well-formed tag\<close>

lemma bufferAt_append: "bufferAt (pre @ b # rest) (int (length pre)) = Some (uint b)"
  by (simp add: bufferAt_def)

lemma bufferAt_append_plus:
  "k < length xs \<Longrightarrow> bufferAt (pre @ xs @ rest) (int (length pre) + int k) = Some (uint (xs ! k))"
  by (simp add: bufferAt_def nth_append nat_add_distrib)

lemma bitAnd_1F: "(bitAnd (uint (b::byte)) 0x1F = 0x1F) = (b AND 0x1F = 0x1F)"
  using bitAnd_byte_test [of b "0x1F" "0x1F"] by simp

lemma bitAnd_80: "(bitAnd (uint (b::byte)) 0x80 = 0x80) = (b AND 0x80 = 0x80)"
  using bitAnd_byte_test [of b "0x80" "0x80"] by simp

lemma bitAnd_80_0: "(bitAnd (uint (b::byte)) 0x80 = 0) = (b AND 0x80 = 0)"
  using bitAnd_byte_test [of b "0x80" "0"] by simp

lemma bitAnd_20: "(bitAnd (uint (b::byte)) 0x20 = 0x20) = (b AND 0x20 = 0x20)"
  using bitAnd_byte_test [of b "0x20" "0x20"] by simp

lemma wellFormedTag_cases:
  assumes "wellFormedTag tb"
  obtains b where "tb = [b]" "b \<noteq> 0" "b AND 0x1F \<noteq> 0x1F"
  | b0 mid bl where "tb = b0 # mid @ [bl]" "b0 \<noteq> 0xFF" "b0 AND 0x1F = 0x1F"
      "list_all (\<lambda>c. c AND 0x80 = 0x80) mid" "bl AND 0x80 = 0" "tagNumber tb < 2147483648"
proof (cases tb)
  case Nil
  with assms show ?thesis by (simp add: wellFormedTag_def)
next
  case (Cons b others)
  show ?thesis
  proof (cases "others = []")
    case True
    with Cons assms that(1) show ?thesis by (simp add: wellFormedTag_def)
  next
    case False
    then have m: "others = butlast others @ [last others]" by simp
    have "tb = b # butlast others @ [last others]"
      using Cons m by simp
    moreover have "b \<noteq> 0xFF" "b AND 0x1F = 0x1F" "list_all (\<lambda>c. c AND 0x80 = 0x80) (butlast others)"
      "last others AND 0x80 = 0" "tagNumber tb < 2147483648"
      using Cons False assms by (simp_all add: wellFormedTag_def)
    ultimately show ?thesis by (rule that(2))
  qed
qed

lemma tagLoop_wellFormed:
  assumes "list_all (\<lambda>c. c AND 0x80 = 0x80) mid" and "bl AND 0x80 = 0" and "0 \<le> t"
    and "foldl (\<lambda>a b. 256 * a + uint b) t (mid @ [bl]) < 2147483648"
  shows "tagLoop (mid @ bl # rest) t l
           = (foldl (\<lambda>a b. 256 * a + uint b) t (mid @ [bl]), l + int (length mid) + 1)"
  using assms
proof (induction mid arbitrary: t l)
  case Nil
  then have "256 * t + uint bl < 2147483648" by simp
  then have "t < 8388608" using uint_byte_bounds [of bl] by linarith
  then have "bitOr (shiftLeft t 8) (uint bl) = 256 * t + uint bl"
    using Nil(3) uint_byte_bounds [of bl] by (intro bitOr_shift) simp_all
  moreover have "bitAnd (uint bl) 0x80 \<noteq> 0x80"
    using Nil(2) by (simp add: bitAnd_80)
  ultimately show ?case by (simp add: Let_def)
next
  case (Cons m ms)
  let ?t = "256 * t + uint m"
  have nn: "0 \<le> ?t"
    using Cons.prems(3) uint_byte_bounds [of m] by linarith
  have "?t \<le> foldl (\<lambda>a b. 256 * a + uint b) ?t (ms @ [bl])"
    using nn by (rule bigEndian_fold_ge)
  then have "?t < 2147483648"
    using Cons.prems(4) by simp
  then have "t < 8388608"
    using uint_byte_bounds [of m] by linarith
  then have sh: "bitOr (shiftLeft t 8) (uint m) = ?t"
    using Cons.prems(3) uint_byte_bounds [of m] by (intro bitOr_shift) simp_all
  have hi: "bitAnd (uint m) 0x80 = 0x80"
    using Cons.prems(1) by (simp add: bitAnd_80)
  have "tagLoop (ms @ bl # rest) ?t (l + 1)
          = (foldl (\<lambda>a b. 256 * a + uint b) ?t (ms @ [bl]), l + 1 + int (length ms) + 1)"
    using Cons.prems nn by (intro Cons.IH) simp_all
  then show ?case
    using sh hi by (simp add: Let_def)
qed

lemma parseTag_wellFormed:
  assumes "wellFormedTag tb"
  shows "parseTag (pre @ tb @ rest) (int (length pre)) = (Some (tagNumber tb), int (length tb))"
  using assms
proof (cases rule: wellFormedTag_cases)
  case (1 b)
  then show ?thesis
    by (simp add: parseTag_def bufferAt_append bitAnd_1F tagNumber_def)
next
  case (2 b0 mid bl)
  have "foldl (\<lambda>a b. 256 * a + uint b) (uint b0) (mid @ [bl]) < 2147483648"
    using 2(1,6) by (simp add: tagNumber_def)
  then have "tagLoop (mid @ bl # rest) (uint b0) 1
          = (foldl (\<lambda>a b. 256 * a + uint b) (uint b0) (mid @ [bl]), 1 + int (length mid) + 1)"
    using 2(4,5) uint_byte_bounds [of b0] by (intro tagLoop_wellFormed) simp_all
  with 2 show ?thesis
    by (simp add: parseTag_def bufferAt_append bitAnd_1F tagNumber_def)
qed

lemma first_byte_wellFormed:
  assumes "wellFormedTag tb"
  shows "bufferAt (pre @ tb @ rest) (int (length pre)) \<noteq> Some 0x00
       \<and> bufferAt (pre @ tb @ rest) (int (length pre)) \<noteq> Some 0xFF"
  using assms
proof (cases rule: wellFormedTag_cases)
  case (1 b)
  have "b \<noteq> 0xFF" using 1 by auto
  with 1 show ?thesis
    using first_byte_test [of b "[]" "0x00"] first_byte_test [of b "[]" "0xFF"]
    by (simp add: bufferAt_append bufferAt_Cons_0)
next
  case (2 b0 mid bl)
  have "b0 \<noteq> 0" using 2 by auto
  with 2 show ?thesis
    using first_byte_test [of b0 "[]" "0x00"] first_byte_test [of b0 "[]" "0xFF"]
    by (simp add: bufferAt_append bufferAt_Cons_0)
qed

lemma isConstructedTag_wellFormed:
  assumes "wellFormedTag tb"
  shows "isConstructedTag (tagNumber tb) = constructedAsParsed tb"
  using assms
proof (cases rule: wellFormedTag_cases)
  case (1 b)
  have "\<not> uint b > 0xFF" using uint_byte_bounds [of b] by simp
  with 1 show ?thesis
    by (simp add: isConstructedTag_def tagNumber_def constructedAsParsed_def constructedBit_def
        bitAnd_20)
next
  case (2 b0 mid bl)
  let ?xs = "b0 # mid"
  have xs: "?xs = butlast ?xs @ [last ?xs]"
    by (rule append_butlast_last_id [symmetric]) simp
  have n: "tagNumber tb = 256 * tagNumber ?xs + uint bl"
    using 2(1) tagNumber_snoc [of ?xs bl] by simp
  have "b0 \<noteq> 0" using 2 by auto
  then have "uint b0 \<noteq> 0" by (simp add: uint_0_iff)
  then have "1 \<le> uint b0" using uint_byte_bounds [of b0] by linarith
  then have pos: "1 \<le> tagNumber ?xs"
    using tagNumber_ge_first [of b0 mid] by linarith
  have big: "tagNumber tb > 0xFF"
    using n pos uint_byte_bounds [of bl] by linarith
  have small: "0 \<le> tagNumber tb" "tagNumber tb < 2147483648"
    using 2(6) tagNumber_nonneg [of tb] by simp_all
  have "tagNumber tb div 256 = tagNumber ?xs"
    using n uint_byte_bounds [of bl] by simp
  then have sr: "shiftRight (tagNumber tb) 8 = tagNumber ?xs"
    using small by (simp add: shiftRight_nonneg)
  have "tagNumber ?xs = 256 * tagNumber (butlast ?xs) + uint (last ?xs)"
    using tagNumber_snoc [of "butlast ?xs" "last ?xs"] xs by simp
  then have "tagNumber ?xs mod 256 = uint (last ?xs)"
    using uint_byte_bounds [of "last ?xs"] by simp
  moreover have "tagNumber ?xs < 2147483648"
    using n small uint_byte_bounds [of bl] pos by linarith
  ultimately have m: "bitAnd (tagNumber ?xs) 0xFF = uint (last ?xs)"
    using pos by (simp add: bitAnd_nonneg and_255)
  have c: "constructedAsParsed tb = (last ?xs AND 0x20 = 0x20)"
    using 2(1) by (simp add: constructedAsParsed_def butlast_append)
  from big show ?thesis
    by (simp only: isConstructedTag_def Let_def sr m c bitAnd_20 if_True)
qed

subsection \<open>The hexadecimal text of a well-formed tag\<close>

lemma digits16_one: "n < 16 \<Longrightarrow> digits 16 n = [hexDigit n]"
  by simp

lemma digits16_two: "16 \<le> n \<Longrightarrow> n < 256 \<Longrightarrow> digits 16 n = [hexDigit (n div 16), hexDigit (n mod 16)]"
  by (subst digits.simps) (simp add: digits16_one)

lemma digits16_append:
  assumes "1 \<le> a" "b < 256"
  shows "digits 16 (256 * a + b) = digits 16 a @ [hexDigit (b div 16), hexDigit (b mod 16)]"
proof -
  have d1: "(256 * a + b) div 16 = 16 * a + b div 16" by simp
  have "256 * a + b = b + 16 * (16 * a)" by simp
  then have m1: "(256 * a + b) mod 16 = b mod 16" by (simp only: mod_mult_self2)
  have d2: "(16 * a + b div 16) div 16 = a" using assms(2) by simp
  have m2: "(16 * a + b div 16) mod 16 = b div 16" using assms(2) by simp
  have "digits 16 (256 * a + b) = digits 16 (16 * a + b div 16) @ [hexDigit (b mod 16)]"
    using assms(1) by (subst digits.simps) (simp add: d1 m1 del: digits.simps)
  also have "digits 16 (16 * a + b div 16) = digits 16 a @ [hexDigit (b div 16)]"
    using assms by (subst digits.simps) (simp add: d2 m2 del: digits.simps)
  finally show ?thesis
    by simp
qed

lemma first_tag_byte_large:
  assumes "(b::byte) AND 0x1F = 0x1F"
  shows "16 \<le> unat b"
proof -
  have "b AND 0x1F \<le> b" by (rule word_and_le2)
  then have "(0x1F :: byte) \<le> b" using assms by simp
  then have "unat (0x1F :: byte) \<le> unat b" by (simp add: word_le_nat_alt)
  then show ?thesis by simp
qed

lemma nat_uint_byte: "nat (uint (b::byte)) = unat b"
  by simp

lemma toHex_snoc: "toHex (bs @ [b]) = toHex bs @ [hexDigit (unat b div 16), hexDigit (unat b mod 16)]"
  by (simp add: toHex_def)

lemma digits16_bytes:
  "bs \<noteq> [] \<Longrightarrow> 16 \<le> unat (hd bs) \<Longrightarrow> digits 16 (nat (tagNumber bs)) = toHex bs"
proof (induction bs rule: rev_induct)
  case Nil
  then show ?case by simp
next
  case (snoc b bs)
  show ?case
  proof (cases "bs = []")
    case True
    have "16 \<le> unat b" "unat b < 256"
      using snoc.prems True unat_byte_bound [of b] by simp_all
    then have "digits 16 (unat b) = [hexDigit (unat b div 16), hexDigit (unat b mod 16)]"
      by (rule digits16_two)
    with True show ?thesis
      by (simp add: tagNumber_def toHex_def del: digits.simps)
  next
    case False
    then have h: "16 \<le> unat (hd bs)"
      using snoc.prems by simp
    have ih: "digits 16 (nat (tagNumber bs)) = toHex bs"
      using False h by (rule snoc.IH)
    have "uint (hd bs) \<le> tagNumber bs"
      using False tagNumber_ge_first [of "hd bs" "tl bs"] by simp
    then have "int (unat (hd bs)) \<le> tagNumber bs"
      by simp
    then have one: "1 \<le> nat (tagNumber bs)"
      using h by linarith
    have "nat (tagNumber (bs @ [b])) = 256 * nat (tagNumber bs) + unat b"
      using tagNumber_nonneg [of bs]
      by (simp add: tagNumber_snoc nat_add_distrib nat_mult_distrib)
    then show ?thesis
      using digits16_append [OF one unat_byte_bound [of b]]
      by (simp add: ih toHex_snoc del: digits.simps)
  qed
qed

lemma tagToHex_wellFormed:
  assumes "wellFormedTag tb"
  shows "tagToHex (tagNumber tb) = toUpperCase (toHex tb)"
  using assms
proof (cases rule: wellFormedTag_cases)
  case (1 b)
  show ?thesis
  proof (cases "unat b < 16")
    case True
    with 1 show ?thesis
      by (simp add: tagToHex_def tagNumber_def numberToString_def padStart_def toUpperCase_def
          toHex_def hexDigit_eval toUpperChar_eval del: digits.simps add: digits16_one)
  next
    case False
    then have "16 \<le> unat b" "unat b < 256"
      using unat_byte_bound [of b] by simp_all
    with 1 show ?thesis
      by (simp add: tagToHex_def tagNumber_def numberToString_def padStart_def toUpperCase_def
          toHex_def del: digits.simps add: digits16_two)
  qed
next
  case (2 b0 mid bl)
  have "16 \<le> unat b0" using 2 by (intro first_tag_byte_large) simp
  then have d: "digits 16 (nat (tagNumber tb)) = toHex tb"
    using 2(1) by (intro digits16_bytes) simp_all
  have nonneg: "\<not> tagNumber tb < 0"
    using tagNumber_nonneg [of tb] by simp
  have "2 \<le> length (toUpperCase (toHex tb))"
    using 2(1) by (simp add: toUpperCase_def length_toHex)
  then have "padStart 2 (CHR ''0'') (toUpperCase (toHex tb)) = toUpperCase (toHex tb)"
    by (simp add: padStart_def)
  then show ?thesis
    using nonneg by (simp add: tagToHex_def numberToString_def d del: digits.simps)
qed

subsection \<open>Parsing an encoded length\<close>

lemma and_128: "0 \<le> (k::int) \<Longrightarrow> k < 128 \<Longrightarrow> k AND 128 = 0"
  using and_pow2 [of k 7] by simp

lemma byteOf_uint:
  assumes "0 \<le> k" "k < 2147483648"
  shows "uint (word_of_int (bitAnd (shiftRight k n) 0xFF) :: byte) = (k div 2 ^ n) mod 256"
proof -
  have a: "0 \<le> k div 2 ^ n" using assms by (simp add: pos_imp_zdiv_nonneg_iff)
  have "k div 2 ^ n \<le> k div 1" using assms(1) by (intro zdiv_mono2) simp_all
  then have b: "k div 2 ^ n < 2147483648" using assms by simp
  have "bitAnd (shiftRight k n) 0xFF = (k div 2 ^ n) mod 256"
    using assms a b by (simp add: shiftRight_nonneg bitAnd_nonneg and_255)
  then show ?thesis
    by (simp add: uint_byte_of_int)
qed

lemma byteOf_uint_0:
  assumes "0 \<le> k" "k < 2147483648"
  shows "uint (word_of_int (bitAnd k 0xFF) :: byte) = k mod 256"
proof -
  have "bitAnd k 0xFF = k mod 256"
    using assms by (simp add: bitAnd_nonneg and_255)
  then show ?thesis
    by (simp add: uint_byte_of_int)
qed

lemma bitOr_shift_0: "0 \<le> b \<Longrightarrow> b < 256 \<Longrightarrow> bitOr (shiftLeft 0 8) b = b"
  using bitOr_shift [of 0 b] by simp

lemma bufferAt_append_1: "bufferAt (pre @ a # b # rest) (int (length pre) + 1) = Some (uint b)"
  using bufferAt_append_plus [of 1 "[a, b]" pre rest] by simp

lemma bufferAt_append_2: "bufferAt (pre @ a # b # c # rest) (int (length pre) + 2) = Some (uint c)"
  using bufferAt_append_plus [of 2 "[a, b, c]" pre rest] by simp

lemma bufferAt_append_3: "bufferAt (pre @ a # b # c # d # rest) (int (length pre) + 3) = Some (uint d)"
  using bufferAt_append_plus [of 3 "[a, b, c, d]" pre rest] by simp

lemma uint_byte_of_nat: "n < 256 \<Longrightarrow> uint (word_of_nat n :: byte) = int n"
  by (simp add: uint_nat unat_byte_of_nat)

lemma long_form_prefix:
  "bitAnd 129 128 = 128" "bitAnd 129 127 = 1"
  "bitAnd 130 128 = 128" "bitAnd 130 127 = 2"
  "bitAnd 131 128 = 128" "bitAnd 131 127 = 3"
  by (simp_all add: js_bits)

lemma upto_small: "[1..1] = [1::int]" "[1..2] = [1::int, 2]" "[1..3] = [1::int, 2, 3]"
  by (simp_all add: upto.simps)

lemma parseLength_encodeLength:
  assumes "n < 16777216"
  shows "parseLength (pre @ encodeLength n @ rest) (int (length pre))
           = (Some (int n), int (length (encodeLength n)))"
proof -
  consider "n < 128" | "128 \<le> n" "n < 256" | "256 \<le> n" "n < 65536" | "65536 \<le> n"
    by linarith
  then show ?thesis
  proof cases
    case 1
    then have u: "uint (word_of_nat n :: byte) = int n"
      by (simp add: uint_byte_of_nat)
    have "bitAnd (int n) 0x80 = 0"
      using 1 by (simp add: bitAnd_nonneg and_128)
    with 1 u show ?thesis
      by (simp add: parseLength_def encodeLength_def bufferAt_append toNumber_def)
  next
    case 2
    then have u: "uint (word_of_nat n :: byte) = int n"
      by (simp add: uint_byte_of_nat)
    have b: "bitOr (shiftLeft 0 8) (int n) = int n"
      using 2 by (intro bitOr_shift_0) simp_all
    from 2 u b show ?thesis
      by (simp add: parseLength_def encodeLength_def bufferAt_append bufferAt_append_1 Let_def
          long_form_prefix toNumber_def)
  next
    case 3
    let ?k = "int n"
    have k: "0 \<le> ?k" "?k < 2147483648" using 3 by simp_all
    have hi: "uint (word_of_int (bitAnd (shiftRight ?k 8) 0xFF) :: byte) = ?k div 256"
      using 3 byteOf_uint [OF k, of 8] by simp
    have lo: "uint (word_of_int (bitAnd ?k 0xFF) :: byte) = ?k mod 256"
      using byteOf_uint_0 [OF k] by simp
    have b1: "bitOr (shiftLeft 0 8) (?k div 256) = ?k div 256"
      using 3 by (intro bitOr_shift_0) simp_all
    have b2: "bitOr (shiftLeft (?k div 256) 8) (?k mod 256) = ?k"
      using 3 by (subst bitOr_shift) simp_all
    from 3 show ?thesis
      by (simp add: parseLength_def encodeLength_def bufferAt_append bufferAt_append_1
          bufferAt_append_2 Let_def long_form_prefix toNumber_def hi lo b1 b2 upto_small)
  next
    case 4
    let ?k = "int n"
    have k: "0 \<le> ?k" "?k < 2147483648" using assms by simp_all
    have small: "?k div 65536 < 256" using assms by simp
    have hi: "uint (word_of_int (bitAnd (shiftRight ?k 16) 0xFF) :: byte) = ?k div 65536"
      using small byteOf_uint [OF k, of 16] by simp
    have mid: "uint (word_of_int (bitAnd (shiftRight ?k 8) 0xFF) :: byte) = ?k div 256 mod 256"
      using byteOf_uint [OF k, of 8] by simp
    have lo: "uint (word_of_int (bitAnd ?k 0xFF) :: byte) = ?k mod 256"
      using byteOf_uint_0 [OF k] by simp
    have d: "?k div 65536 = ?k div 256 div 256"
      by (simp add: zdiv_zmult2_eq)
    have b1: "bitOr (shiftLeft 0 8) (?k div 65536) = ?k div 65536"
      using small by (intro bitOr_shift_0) simp_all
    have b2: "bitOr (shiftLeft (?k div 65536) 8) (?k div 256 mod 256) = ?k div 256"
      using small by (subst bitOr_shift) (simp_all add: d)
    have b3: "bitOr (shiftLeft (?k div 256) 8) (?k mod 256) = ?k"
      using assms by (subst bitOr_shift) simp_all
    from 4 show ?thesis
      by (simp add: parseLength_def encodeLength_def bufferAt_append bufferAt_append_1
          bufferAt_append_2 bufferAt_append_3 Let_def long_form_prefix toNumber_def
          hi mid lo b1 b2 b3 upto_small)
  qed
qed

subsection \<open>Parsing a complete length field\<close>

lemma upto_snoc: "[1..int (Suc n)] = [1..int n] @ [int n + 1]"
  using upto_rec2 [of 1 "int (Suc n)"] by (simp add: add.commute)

lemma bigEndian_snoc: "bigEndian (bs @ [b]) = 256 * bigEndian bs + uint b"
  by (simp add: bigEndian_def)

lemma bigEndian_nonneg: "0 \<le> bigEndian bs"
  by (simp add: bigEndian_tagNumber tagNumber_nonneg)

lemma lengthLoop_bytes:
  assumes "bigEndian ms < 2147483648"
  shows "foldl (\<lambda>len i. bitOr (shiftLeft len 8)
                  (toNumber (bufferAt (pre @ f # ms @ rest) (int (length pre) + i))))
           0 [1..int (length ms)] = bigEndian ms"
  using assms
proof (induction ms arbitrary: rest rule: rev_induct)
  case Nil
  show ?case by (simp add: bigEndian_def)
next
  case (snoc b ms)
  have "256 * bigEndian ms + uint b < 2147483648"
    using snoc.prems by (simp add: bigEndian_snoc)
  then have small: "bigEndian ms < 8388608"
    using uint_byte_bounds [of b] by linarith
  have ih: "foldl (\<lambda>len i. bitOr (shiftLeft len 8)
                  (toNumber (bufferAt (pre @ f # ms @ b # rest) (int (length pre) + i))))
           0 [1..int (length ms)] = bigEndian ms"
    using snoc.IH [of "b # rest"] small by simp
  have "bufferAt (pre @ (f # ms @ [b]) @ rest) (int (length pre) + int (Suc (length ms)))
          = Some (uint ((f # ms @ [b]) ! Suc (length ms)))"
    by (rule bufferAt_append_plus) simp
  then have at: "bufferAt (pre @ f # ms @ b # rest) (int (length pre) + (int (length ms) + 1))
          = Some (uint b)"
    by (simp add: add.commute)
  have sh: "bitOr (shiftLeft (bigEndian ms) 8) (uint b) = 256 * bigEndian ms + uint b"
    using small bigEndian_nonneg [of ms] uint_byte_bounds [of b] by (intro bitOr_shift) simp_all
  have "[1..int (length (ms @ [b]))] = [1..int (length ms)] @ [int (length ms) + 1]"
    using upto_snoc [of "length ms"] by simp
  moreover have "toNumber (Some (uint b)) = uint b"
    by (simp add: toNumber_def)
  ultimately show ?case
    by (simp add: ih at sh bigEndian_snoc)
qed

lemma parseLength_field:
  assumes "wellFormedLength lf"
  shows "parseLength (pre @ lf @ rest) (int (length pre))
           = (Some (int (declaredLength lf)), int (length lf))"
proof (cases lf)
  case Nil
  with assms show ?thesis by (simp add: wellFormedLength_def)
next
  case (Cons f ms)
  show ?thesis
  proof (cases "f AND 0x80 = 0")
    case True
    then have "ms = []"
      using assms Cons by (simp add: wellFormedLength_def)
    with True Cons show ?thesis
      by (simp add: parseLength_def bufferAt_append toNumber_def bitAnd_80_0 declaredLength_def)
  next
    case False
    then have ms: "length ms = unat (f AND 0x7F)" "bigEndian ms < 2147483648"
      using assms Cons by (simp_all add: wellFormedLength_def)
    have long: "bitAnd (uint f) 0x80 \<noteq> 0"
      using False by (simp add: bitAnd_80_0)
    have "bitAnd (uint f) (uint (0x7F::byte)) = uint (f AND 0x7F)"
      by (rule bitAnd_bytes)
    then have k: "bitAnd (uint f) 0x7F = int (length ms)"
      using ms(1) by simp
    have loop: "foldl (\<lambda>len i. bitOr (shiftLeft len 8)
                  (toNumber (bufferAt (pre @ f # ms @ rest) (int (length pre) + i))))
           0 [1..int (length ms)] = bigEndian ms"
      using ms(2) by (rule lengthLoop_bytes)
    have tn: "toNumber (Some (uint f)) = uint f"
      by (simp add: toNumber_def)
    from False Cons show ?thesis
      using bigEndian_nonneg [of ms]
      by (simp add: parseLength_def bufferAt_append tn long k loop declaredLength_def Let_def)
  qed
qed

subsection \<open>Parsing one encoded object\<close>

lemma slice_take:
  "slice (xs @ tail) (int (length xs)) (int (length xs) + int n) = take n tail"
proof -
  have s: "adjustOffset (int (length xs)) (length (xs @ tail)) = length xs"
    by (simp add: adjustOffset_le)
  have e: "adjustOffset (int (length xs) + int n) (length (xs @ tail))
             = min (length xs + n) (length xs + length tail)"
    by (simp add: adjustOffset_def min_def nat_add_distrib)
  show ?thesis
    by (simp only: slice_def Let_def s e) (simp add: min_def)
qed

lemma wellFormedTag_length: "wellFormedTag tb \<Longrightarrow> 0 < length tb"
  by (auto simp add: wellFormedTag_def split: list.splits)

lemma parseBuffer_object:
  assumes "wellFormedTag tb" and "buf = pre @ tb @ lf @ tail"
    and "parseLength buf (int (length pre) + int (length tb)) = (Some (int n), int (length lf))"
  shows "parseBuffer (Suc fuel) buf (int (length pre)) (int (length buf))
     = (case (if constructedAsParsed tb
              then parseBuffer fuel (take n tail) 0 (int (length (take n tail))) else Inr []) of
          Inl e \<Rightarrow> Inl e
        | Inr kids \<Rightarrow>
           (case parseBuffer fuel buf
                   (int (length pre) + int (length tb) + int (length lf) + int n)
                   (int (length buf)) of
              Inl e \<Rightarrow> Inl e
            | Inr rest \<Rightarrow>
                Inr (TLVObject (tagNumber tb) (toUpperCase (toHex tb)) (Some (int n)) (take n tail)
                       (toUpperCase (toHex (take n tail))) (constructedAsParsed tb) kids # rest)))"
proof -
  have "length pre < length buf"
    using assms(2) wellFormedTag_length [OF assms(1)] by (simp del: length_greater_0_conv)
  then have lt: "int (length pre) < int (length buf)"
    by simp
  have fb: "bufferAt buf (int (length pre)) \<noteq> Some 0x00" "bufferAt buf (int (length pre)) \<noteq> Some 0xFF"
    using first_byte_wellFormed [OF assms(1), of pre "lf @ tail"] assms(2) by simp_all
  have tg: "parseTag buf (int (length pre)) = (Some (tagNumber tb), int (length tb))"
    using parseTag_wellFormed [OF assms(1), of pre "lf @ tail"] assms(2) by simp
  have val: "slice buf (int (length pre) + int (length tb) + int (length lf))
               (int (length pre) + int (length tb) + int (length lf) + int n)
             = take n tail"
    using slice_take [of "pre @ tb @ lf" tail n] assms(2) by (simp add: add.assoc)
  show ?thesis
    by (simp only: parseBuffer_node [OF lt fb tg assms(3) val] isConstructedTag_wellFormed [OF assms(1)]
        tagToHex_wellFormed [OF assms(1)])
qed

lemma parseBuffer_encoded:
  assumes "wellFormedTag tb" and "n < 16777216"
    and "buf = pre @ tb @ encodeLength n @ tail"
  shows "parseBuffer (Suc fuel) buf (int (length pre)) (int (length buf))
     = (case (if constructedAsParsed tb
              then parseBuffer fuel (take n tail) 0 (int (length (take n tail))) else Inr []) of
          Inl e \<Rightarrow> Inl e
        | Inr kids \<Rightarrow>
           (case parseBuffer fuel buf
                   (int (length pre) + int (length tb) + int (length (encodeLength n)) + int n)
                   (int (length buf)) of
              Inl e \<Rightarrow> Inl e
            | Inr rest \<Rightarrow>
                Inr (TLVObject (tagNumber tb) (toUpperCase (toHex tb)) (Some (int n)) (take n tail)
                       (toUpperCase (toHex (take n tail))) (constructedAsParsed tb) kids # rest)))"
proof -
  have len: "parseLength buf (int (length pre) + int (length tb))
               = (Some (int n), int (length (encodeLength n)))"
    using parseLength_encodeLength [OF assms(2), of "pre @ tb" tail] assms(3) by simp
  show ?thesis
    using assms(1,3) len by (rule parseBuffer_object)
qed

lemma parseBuffer_field:
  assumes "wellFormedTag tb" and "wellFormedLength lf"
    and "buf = pre @ tb @ lf @ tail"
  shows "parseBuffer (Suc fuel) buf (int (length pre)) (int (length buf))
     = (case (if constructedAsParsed tb
              then parseBuffer fuel (take (declaredLength lf) tail) 0
                     (int (length (take (declaredLength lf) tail))) else Inr []) of
          Inl e \<Rightarrow> Inl e
        | Inr kids \<Rightarrow>
           (case parseBuffer fuel buf
                   (int (length pre) + int (length tb) + int (length lf) + int (declaredLength lf))
                   (int (length buf)) of
              Inl e \<Rightarrow> Inl e
            | Inr rest \<Rightarrow>
                Inr (TLVObject (tagNumber tb) (toUpperCase (toHex tb)) (Some (int (declaredLength lf)))
                       (take (declaredLength lf) tail)
                       (toUpperCase (toHex (take (declaredLength lf) tail)))
                       (constructedAsParsed tb) kids # rest)))"
proof -
  have len: "parseLength buf (int (length pre) + int (length tb))
               = (Some (int (declaredLength lf)), int (length lf))"
    using parseLength_field [OF assms(2), of "pre @ tb" tail] assms(3) by simp
  show ?thesis
    using assms(1,3) len by (rule parseBuffer_object)
qed

subsection \<open>The parser raises no decode error\<close>

lemma parseBuffer_no_Error: "parseBuffer fuel buf offset endOffset \<noteq> Inl (Error msg)"
proof (induction fuel arbitrary: buf offset endOffset)
  case 0
  show ?case by (simp add: parseBuffer.simps)
next
  case (Suc fuel)
  show ?case
    using Suc.IH
    by (auto simp add: parseBuffer.simps Let_def split: prod.splits option.splits sum.splits if_splits)
qed

lemma parseBuffer_node_no_length:
  assumes "offset < endOffset"
    and "bufferAt buf offset \<noteq> Some 0x00" and "bufferAt buf offset \<noteq> Some 0xFF"
    and "parseTag buf offset = (Some t, tagLength)"
    and "parseLength buf (offset + tagLength) = (None, lengthBytes)"
    and "sliceNaN buf (offset + tagLength + lengthBytes) = v"
  shows "parseBuffer (Suc fuel) buf offset endOffset =
     (case (if isConstructedTag t then parseBuffer fuel v 0 (int (length v)) else Inr []) of
        Inl e \<Rightarrow> Inl e
      | Inr kids \<Rightarrow>
          Inr [TLVObject t (tagToHex t) None v (toUpperCase (toHex v)) (isConstructedTag t) kids])"
  using assms
  by (cases "isConstructedTag t") (simp_all add: parseBuffer.simps Let_def split: sum.splits)

lemma parse_toHex: "parse fuel (toHex buf) = parseBuffer fuel buf 0 (int (length buf))"
  by (simp add: parse_def removeWhitespace_toHex fromHex_toHex)

subsection \<open>The bytes of a node tree, and parsing them\<close>

lemma build_append: "build (xs @ ys) = build xs @ build ys"
  by (simp add: build_def)

lemma addNodes_append: "addNodes ns acc = acc @ addNodes ns []"
proof (induction ns arbitrary: acc)
  case Nil
  show ?case by simp
next
  case (Cons n ns)
  have one: "addNode n acc = acc @ addNode n []" for acc
    by (cases n) (simp_all add: addPrimitive_def addConstructed_def)
  show ?case
    using Cons.IH [of "addNode n acc"] Cons.IH [of "addNode n []"] one [of acc] by simp
qed

lemma build_addNode: "build (addNode n []) = encodeNode n"
  by (cases n)
     (simp_all add: addPrimitive_def addConstructed_def build_def encodeTag_def
        fromHex_toUpperCase buildNodes_def)

lemma buildNodes_Nil: "buildNodes [] = []"
  by (simp add: buildNodes_def build_def)

lemma buildNodes_Cons: "buildNodes (n # ns) = encodeNode n @ buildNodes ns"
proof -
  have "addNodes (n # ns) [] = addNode n [] @ addNodes ns []"
    using addNodes_append [of ns "addNode n []"] by simp
  then show ?thesis
    by (simp add: buildNodes_def build_append build_addNode)
qed

lemma length_encodeLength: "0 < length (encodeLength n)"
  by (simp add: encodeLength_def)

lemma encodeLength_nonempty: "encodeLength n \<noteq> []"
  by (simp add: encodeLength_def)

lemma parse_encodeNode:
  assumes "validTag tHex" and "n < 16777216"
    and "buf = pre @ (fromHex tHex @ encodeLength n @ v) @ tail" and "length v = n"
    and kids: "if constructedBit (fromHex tHex)
               then parseBuffer fuel v 0 (int (length v)) = Inr ks else ks = []"
    and rest: "parseBuffer fuel buf (int (length (pre @ fromHex tHex @ encodeLength n @ v)))
                 (int (length buf)) = Inr os"
  shows "parseBuffer (Suc fuel) buf (int (length pre)) (int (length buf))
           = Inr (TLVObject (tagNumber (fromHex tHex)) (toUpperCase tHex) (Some (int n)) v
                    (toUpperCase (toHex v)) (constructedBit (fromHex tHex)) ks # os)"
proof -
  have w: "wellFormedTag (fromHex tHex)"
    and h: "toUpperCase (toHex (fromHex tHex)) = toUpperCase tHex"
    and c: "constructedAsParsed (fromHex tHex) = constructedBit (fromHex tHex)"
    using assms(1) by (simp_all add: validTag_def)
  have b: "buf = pre @ fromHex tHex @ encodeLength n @ (v @ tail)"
    using assms(3) by simp
  have tk: "take n (v @ tail) = v"
    using assms(4) by simp
  have off: "int (length pre) + int (length (fromHex tHex)) + int (length (encodeLength n)) + int n
               = int (length (pre @ fromHex tHex @ encodeLength n @ v))"
    using assms(4) by simp
  show ?thesis
    unfolding parseBuffer_encoded [OF w assms(2) b] tk off rest h c
    using kids by (simp split: if_splits)
qed

lemma parseBuffer_built:
  "validNode n \<Longrightarrow> length (encodeNode n) \<le> Suc fuel \<Longrightarrow>
     parseBuffer fuel (pre @ encodeNode n @ tail) (int (length (pre @ encodeNode n)))
        (int (length (pre @ encodeNode n @ tail))) = Inr os \<Longrightarrow>
     parseBuffer (Suc fuel) (pre @ encodeNode n @ tail) (int (length pre))
        (int (length (pre @ encodeNode n @ tail))) = Inr (expectedObject n # os)"
  "validNodes ns \<Longrightarrow> length (buildNodes ns) < fuel \<Longrightarrow>
     parseBuffer fuel (pre @ buildNodes ns) (int (length pre)) (int (length (pre @ buildNodes ns)))
       = Inr (expectedObjects ns)"
proof (induction n and ns arbitrary: fuel pre tail os and fuel pre rule: expectedObject_expectedObjects.induct)
  case (1 tHex v)
  have "parseBuffer (Suc fuel) (pre @ encodeNode (Primitive tHex v) @ tail) (int (length pre))
          (int (length (pre @ encodeNode (Primitive tHex v) @ tail)))
        = Inr (TLVObject (tagNumber (fromHex tHex)) (toUpperCase tHex) (Some (int (length v))) v
                    (toUpperCase (toHex v)) (constructedBit (fromHex tHex)) [] # os)"
    using 1 by (intro parse_encodeNode) simp_all
  then show ?case
    using 1(1) by simp
next
  case (2 tHex kids)
  let ?v = "buildNodes kids"
  have "wellFormedTag (fromHex tHex)"
    using 2(2) by (simp add: validTag_def)
  then have "0 < length (fromHex tHex)"
    by (rule wellFormedTag_length)
  then have len: "length ?v < fuel"
    using 2(3) length_encodeLength [of "length ?v"] by (simp del: length_greater_0_conv)
  have ks: "parseBuffer fuel ?v 0 (int (length ?v)) = Inr (expectedObjects kids)"
    using 2(1) [of fuel "[]"] 2(2) len by simp
  have "parseBuffer (Suc fuel) (pre @ encodeNode (Constructed tHex kids) @ tail) (int (length pre))
          (int (length (pre @ encodeNode (Constructed tHex kids) @ tail)))
        = Inr (TLVObject (tagNumber (fromHex tHex)) (toUpperCase tHex) (Some (int (length ?v))) ?v
                    (toUpperCase (toHex ?v)) (constructedBit (fromHex tHex)) (expectedObjects kids) # os)"
    using 2(2,4) ks by (intro parse_encodeNode) simp_all
  then show ?case
    using 2(2) by simp
next
  case 3
  then obtain fuel' where "fuel = Suc fuel'"
    by (cases fuel) simp_all
  then show ?case
    by (simp add: buildNodes_Nil parseBuffer_end)
next
  case (4 n ns)
  from 4(4) obtain fuel' where f: "fuel = Suc fuel'"
    by (cases fuel) simp_all
  have pos: "0 < length (encodeNode n)"
    by (cases n) (simp_all add: encodeLength_nonempty)
  have l1: "length (encodeNode n) \<le> Suc fuel'" and l2: "length (buildNodes ns) < fuel'"
    using 4(4) pos by (simp_all add: f buildNodes_Cons del: length_greater_0_conv)
  have r: "parseBuffer fuel' (pre @ encodeNode n @ buildNodes ns) (int (length (pre @ encodeNode n)))
             (int (length (pre @ encodeNode n @ buildNodes ns))) = Inr (expectedObjects ns)"
    using 4(2) [of fuel' "pre @ encodeNode n"] 4(3) l2 by simp
  show ?case
    using 4(1) [OF _ l1 r] 4(3) by (simp add: f buildNodes_Cons)
qed


lemma isWhitespace_upper_hexDigit: "n < 16 \<Longrightarrow> \<not> isWhitespace (toUpperChar (hexDigit n))"
  by (auto simp add: isWhitespace_def hexDigit_def toUpperChar_def Let_def)

lemma removeWhitespace_upper_toHex:
  "removeWhitespace (toUpperCase (toHex bs)) = toUpperCase (toHex bs)"
  by (induction bs)
     (simp_all add: toHex_def toUpperCase_def removeWhitespace_def isWhitespace_upper_hexDigit nibble_hi)

lemma parse_buildHex: "parse fuel (buildHex items) = parseBuffer fuel (build items) 0 (int (length (build items)))"
  by (simp add: parse_def Let_def buildHex_def removeWhitespace_upper_toHex fromHex_upper_toHex)

subsection \<open>GET PROCESSING OPTIONS, the two response formats\<close>






section \<open>Properties\<close>

subsection \<open>GENERATE AC, format 1\<close>

text \<open>
  C4. For a format 1 response \<open>80 LL CID ATC AC\<close> the cryptogram is to be the bytes after
  the CID and the two bytes of the ATC. \<open>processGenACResponse\<close> takes \<open>slice(3, 11)\<close>,
  which starts at the ATC: for CID \<open>80\<close>, ATC \<open>00 01\<close> and AC \<open>11 22 33 44 55 66 77 88\<close>
  the context's cryptogram is \<open>00 01 11 22 33 44 55 66\<close>.
\<close>

theorem processGenACResponse_format1_cryptogram:
  "processGenACResponse 0 newTransactionContext
     \<lparr>data = [0x80, 0x0B, 0x80, 0x00, 0x01, 0x11, 0x22, 0x33, 0x44, 0x55, 0x66, 0x77, 0x88],
      sw1 = 0x90, sw2 = 0x00\<rparr>
   = Inr (True, newTransactionContext
           \<lparr>cryptogramType := Some 0x80,
            cryptogram := Some [0x00, 0x01, 0x11, 0x22, 0x33, 0x44, 0x55, 0x66],
            log := [\<lparr>log_state = IDLE, log_event = ''AC_GENERATED''\<rparr>],
            state := COMPLETION\<rparr>)"
  by (simp add: processGenACResponse_def isSuccess_def sw_def SW_isSuccess_def bitOr_def
      shiftLeft_def bitAnd_def toInt32_def bufferAt_def toNumber_def slice_def adjustOffset_def
      logEvent_def newTransactionContext_def)


subsection \<open>Unknown response formats\<close>

text \<open>
  C10. A GENERATE AC response with a success status word whose first data byte is neither
  0x80 nor 0x77 records no error, leaves the cryptogram and its type as they were, sets
  the state to COMPLETION and returns true; \<open>processGPOResponse\<close> on the same response
  records an error, sets the state to ERROR and returns false.
\<close>

theorem unknown_format_genac_completes_gpo_fails:
  assumes "isSuccess response" and "data response = b # bs" and "b \<noteq> 0x80" and "b \<noteq> 0x77"
  shows "processGenACResponse fuel ctx response
           = Inr (True, (logEvent ctx ''AC_GENERATED'')\<lparr>state := COMPLETION\<rparr>)
       \<and> errors ((logEvent ctx ''AC_GENERATED'')\<lparr>state := COMPLETION\<rparr>) = errors ctx
       \<and> cryptogram ((logEvent ctx ''AC_GENERATED'')\<lparr>state := COMPLETION\<rparr>) = cryptogram ctx
       \<and> cryptogramType ((logEvent ctx ''AC_GENERATED'')\<lparr>state := COMPLETION\<rparr>) = cryptogramType ctx
       \<and> processGPOResponse fuel ctx response
           = Inr (False, ctx\<lparr>errors := errors ctx @
                   [\<lparr>err_phase = ''GPO'', err_sw = None,
                     err_message = ''Unknown GPO response format: '' @ numberToString 16 (uint b)\<rparr>],
                 state := ERROR\<rparr>)"
proof -
  have a: "bufferAt (data response) 0 \<noteq> Some 0x80"
    using assms(2,3) first_byte_test [of b bs "0x80"] by simp
  have b: "bufferAt (data response) 0 \<noteq> Some 0x77"
    using assms(2,4) first_byte_test [of b bs "0x77"] by simp
  have c: "bufferAt (data response) 0 = Some (uint b)"
    using assms(2) by (simp add: bufferAt_Cons_0)
  show ?thesis
    using assms(1) a b c
    by (simp add: processGenACResponse_def processGPOResponse_def logEvent_def)
qed

theorem unknown_format_witness:
  "processGenACResponse 0 newTransactionContext \<lparr>data = [0x5A, 0x00], sw1 = 0x90, sw2 = 0x00\<rparr>
     = Inr (True, newTransactionContext
             \<lparr>log := [\<lparr>log_state = IDLE, log_event = ''AC_GENERATED''\<rparr>], state := COMPLETION\<rparr>)
   \<and> cryptogram newTransactionContext = None
   \<and> cryptogramType newTransactionContext = None
   \<and> processGPOResponse 0 newTransactionContext \<lparr>data = [0x5A, 0x00], sw1 = 0x90, sw2 = 0x00\<rparr>
     = Inr (False, newTransactionContext
             \<lparr>errors := [\<lparr>err_phase = ''GPO'', err_sw = None,
                          err_message = ''Unknown GPO response format: 5a''\<rparr>],
              state := ERROR\<rparr>)"
proof -
  have d: "numberToString 16 90 = ''5a''"
    by (simp add: numberToString_def hexDigit_eval)
  have p1: "data \<lparr>data = [0x5A, 0x00], sw1 = 0x90, sw2 = 0x00\<rparr> = 0x5A # [0x00]"
    by simp
  have p2: "(0x5A :: byte) \<noteq> 0x80" and p3: "(0x5A :: byte) \<noteq> 0x77"
    by simp_all
  show ?thesis
    using unknown_format_genac_completes_gpo_fails [OF isSuccess_9000 p1 p2 p3, of 0 newTransactionContext]
    by (simp add: d logEvent_def newTransactionContext_def)
qed

subsection \<open>Failure semantics\<close>

text \<open>
  C5. On a response whose status word is not a success, \<open>processSelectResponse\<close>,
  \<open>processGPOResponse\<close> and \<open>processGenACResponse\<close> append an entry to the errors,
  set the state to ERROR and return false; \<open>processReadRecordResponse\<close> appends an entry
  to the warnings, leaves the state as it was and returns false. Interop-issue detection
  changes nothing but the list of interop issues: \<open>validateFFI\<close> and \<open>validatePAR\<close>
  return the context with at most that list changed, and the two calls that run them
  return the same boolean and the same context up to that list whether detection is
  switched on or off (\<open>processGPOResponse\<close> and \<open>processGenACResponse\<close> run no
  detection).
\<close>

theorem failure_semantics:
  "(\<not> isSuccess response \<longrightarrow>
      processSelectResponse opts fuel ctx response
        = Inr (False, ctx\<lparr>errors := errors ctx @
                 [\<lparr>err_phase = ''SELECT'', err_sw = Some (sw response),
                   err_message = getStatusDescription response\<rparr>],
               state := ERROR\<rparr>)
    \<and> processGPOResponse fuel ctx response
        = Inr (False, ctx\<lparr>errors := errors ctx @
                 [\<lparr>err_phase = ''GPO'', err_sw = Some (sw response),
                   err_message = getStatusDescription response\<rparr>],
               state := ERROR\<rparr>)
    \<and> processGenACResponse fuel ctx response
        = Inr (False, ctx\<lparr>errors := errors ctx @
                 [\<lparr>err_phase = ''GENERATE_AC'', err_sw = Some (sw response),
                   err_message = getStatusDescription response\<rparr>],
               state := ERROR\<rparr>)
    \<and> processReadRecordResponse opts fuel ctx response sfiArg recordArg
        = Inr (False, ctx\<lparr>warnings := warnings ctx @
                 [\<lparr>warn_phase = ''READ_RECORD'', warn_sfi = sfiArg, warn_record = recordArg,
                   warn_sw = sw response, warn_message = getStatusDescription response\<rparr>]\<rparr>))
   \<and> validateFFI opts ctx tlv = ctx\<lparr>interopIssues := interopIssues (validateFFI opts ctx tlv)\<rparr>
   \<and> validatePAR opts ctx tlv = ctx\<lparr>interopIssues := interopIssues (validatePAR opts ctx tlv)\<rparr>
   \<and> ignoringIssues (processSelectResponse opts fuel ctx response)
       = ignoringIssues (processSelectResponse opts' fuel ctx response)
   \<and> ignoringIssues (processReadRecordResponse opts fuel ctx response sfiArg recordArg)
       = ignoringIssues (processReadRecordResponse opts' fuel ctx response sfiArg recordArg)"
proof -
  have fatal: "\<not> isSuccess response \<longrightarrow>
      processSelectResponse opts fuel ctx response
        = Inr (False, ctx\<lparr>errors := errors ctx @
                 [\<lparr>err_phase = ''SELECT'', err_sw = Some (sw response),
                   err_message = getStatusDescription response\<rparr>],
               state := ERROR\<rparr>)
    \<and> processGPOResponse fuel ctx response
        = Inr (False, ctx\<lparr>errors := errors ctx @
                 [\<lparr>err_phase = ''GPO'', err_sw = Some (sw response),
                   err_message = getStatusDescription response\<rparr>],
               state := ERROR\<rparr>)
    \<and> processGenACResponse fuel ctx response
        = Inr (False, ctx\<lparr>errors := errors ctx @
                 [\<lparr>err_phase = ''GENERATE_AC'', err_sw = Some (sw response),
                   err_message = getStatusDescription response\<rparr>],
               state := ERROR\<rparr>)
    \<and> processReadRecordResponse opts fuel ctx response sfiArg recordArg
        = Inr (False, ctx\<lparr>warnings := warnings ctx @
                 [\<lparr>warn_phase = ''READ_RECORD'', warn_sfi = sfiArg, warn_record = recordArg,
                   warn_sw = sw response, warn_message = getStatusDescription response\<rparr>]\<rparr>)"
    by (simp add: processSelectResponse_def processGPOResponse_def processGenACResponse_def
        processReadRecordResponse_def)
  show ?thesis
    using fatal validateFFI_frame [of opts ctx tlv] validatePAR_frame [of opts ctx tlv]
      select_ignoring [of opts fuel ctx response opts']
      read_ignoring [of opts fuel ctx response sfiArg recordArg opts']
    by blast
qed

theorem failure_semantics_witness:
  "processSelectResponse defaultOptions 0 newTransactionContext \<lparr>data = [], sw1 = 0x6A, sw2 = 0x82\<rparr>
     = Inr (False, newTransactionContext
             \<lparr>errors := [\<lparr>err_phase = ''SELECT'', err_sw = Some 0x6A82, err_message = ''File not found''\<rparr>],
              state := ERROR\<rparr>)
   \<and> processGPOResponse 0 newTransactionContext \<lparr>data = [], sw1 = 0x6A, sw2 = 0x82\<rparr>
     = Inr (False, newTransactionContext
             \<lparr>errors := [\<lparr>err_phase = ''GPO'', err_sw = Some 0x6A82, err_message = ''File not found''\<rparr>],
              state := ERROR\<rparr>)
   \<and> processGenACResponse 0 newTransactionContext \<lparr>data = [], sw1 = 0x6A, sw2 = 0x82\<rparr>
     = Inr (False, newTransactionContext
             \<lparr>errors := [\<lparr>err_phase = ''GENERATE_AC'', err_sw = Some 0x6A82, err_message = ''File not found''\<rparr>],
              state := ERROR\<rparr>)
   \<and> processReadRecordResponse defaultOptions 0 newTransactionContext
        \<lparr>data = [], sw1 = 0x6A, sw2 = 0x82\<rparr> 1 2
     = Inr (False, newTransactionContext
             \<lparr>warnings := [\<lparr>warn_phase = ''READ_RECORD'', warn_sfi = 1, warn_record = 2,
                            warn_sw = 0x6A82, warn_message = ''File not found''\<rparr>]\<rparr>)"
  using failure_semantics
    [of "\<lparr>data = [], sw1 = 0x6A, sw2 = 0x82\<rparr>" defaultOptions 0 newTransactionContext 1 2]
    not_isSuccess_6A82 [of "[]"]
  by (simp add: sw_6A82 description_6A82 newTransactionContext_def)

subsection \<open>Form Factor Indicator validation\<close>

text \<open>
  C9, as amended. With detection enabled and a kernel other than C8, on an FFI as the
  parser delivers it (\<open>valueHex\<close> the upper-case hexadecimal text of the bytes):
  a 4-byte FFI whose byte 1 has low nibble 0x07 records exactly one issue,
  FFI_INVALID_FORM_FACTOR of severity ERROR; an FFI of fewer than 4 bytes records
  FFI_LENGTH of severity WARNING and the form-factor check still runs on byte 1 (a
  missing byte counts as 0), so that a second issue FFI_INVALID_FORM_FACTOR follows
  exactly when that nibble is outside 0..6; an FFI of 4 bytes or more records no
  FFI_LENGTH issue. The claim as stated (a 3-byte FFI records exactly one issue and no
  form-factor check; every length other than 4 is flagged) fails on the 3-byte FFI
  \<open>20 07 00\<close>, which records two issues, and on the 5-byte FFI \<open>20 01 00 00 00\<close>,
  which records none.
\<close>

theorem validateFFI_issues:
  assumes "detectInteropIssues opts" and "kernel ctx \<noteq> Some KernelID_C8"
    and "valueHex ffiTag = toUpperCase (toHex ffi)"
  shows "(length ffi = 4 \<and> (ffi ! 1) AND 0x0F = 0x07 \<longrightarrow>
            issuesRecorded ctx (validateFFI opts ctx ffiTag) = [(''FFI_INVALID_FORM_FACTOR'', ''ERROR'')])
       \<and> (length ffi < 4 \<longrightarrow>
            issuesRecorded ctx (validateFFI opts ctx ffiTag)
              = (''FFI_LENGTH'', ''WARNING'')
                # (if formFactor ffi \<in> {0, 1, 2, 3, 4, 5, 6} then []
                   else [(''FFI_INVALID_FORM_FACTOR'', ''ERROR'')]))
       \<and> (length ffi \<ge> 4 \<longrightarrow>
            (''FFI_LENGTH'', ''WARNING'') \<notin> set (issuesRecorded ctx (validateFFI opts ctx ffiTag)))"
proof -
  have ffi: "fromHex (valueHex ffiTag) = ffi"
    using assms(3) by (simp add: fromHex_upper_toHex)
  have four: "formFactor ffi = 7" if "length ffi = 4" "(ffi ! 1) AND 0x0F = 0x07"
    using that by (simp add: formFactor_def bufferAt_def toNumber_def bitAnd_0F)
  show ?thesis
    using assms(1,2) four
    by (auto simp add: validateFFI_def ffi Let_def issuesRecorded_def issuesRecorded_record
        formFactor_def [symmetric])
qed

theorem validateFFI_issues_witness:
  "issuesRecorded newTransactionContext
     (validateFFI defaultOptions newTransactionContext
        (TLVObject 0x9F6E ''9F6E'' (Some 4) [0x20, 0x07, 0x00, 0x00] ''20070000'' False []))
     = [(''FFI_INVALID_FORM_FACTOR'', ''ERROR'')]"
proof -
  have h: "valueHex (TLVObject 0x9F6E ''9F6E'' (Some 4) [0x20, 0x07, 0x00, 0x00] ''20070000'' False [])
             = toUpperCase (toHex [0x20, 0x07, 0x00, 0x00])"
    by (simp add: toUpperCase_def toHex_def toUpperChar_eval hexDigit_eval)
  have d: "detectInteropIssues defaultOptions"
    by (simp add: defaultOptions_def)
  have k: "kernel newTransactionContext \<noteq> Some KernelID_C8"
    by (simp add: newTransactionContext_def)
  show ?thesis
    using validateFFI_issues [OF d k h] by simp
qed

theorem validateFFI_counterexample:
  "issuesRecorded newTransactionContext
     (validateFFI defaultOptions newTransactionContext
        (TLVObject 0x9F6E ''9F6E'' (Some 3) [0x20, 0x07, 0x00] ''200700'' False []))
     = [(''FFI_LENGTH'', ''WARNING''), (''FFI_INVALID_FORM_FACTOR'', ''ERROR'')]
   \<and> issuesRecorded newTransactionContext
     (validateFFI defaultOptions newTransactionContext
        (TLVObject 0x9F6E ''9F6E'' (Some 5) [0x20, 0x01, 0x00, 0x00, 0x00] ''2001000000'' False []))
     = []"
  by (simp add: validateFFI_def defaultOptions_def newTransactionContext_def issuesRecorded_def
      recordInteropIssue_def hexValue_eval bufferAt_def toNumber_def bitAnd_def toInt32_def
      KernelID_C8_def Let_def)

subsection \<open>Command APDU: case and round trip\<close>

text \<open>
  C6, as amended. For every command the derived case is one of 1 to 4: 1 for no data and no
  Le, 2 for no data and Le, 3 for data and no Le, 4 for data and Le, where a \<open>Buffer\<close>, also
  an empty one, is data. For a command whose header fields are bytes, whose data when
  present has at most 255 bytes and is not empty unless Le is present, and whose Le when
  present is in 0..256, \<open>fromBuffer(toBuffer(c))\<close> gives back cla, ins, p1, p2 and data, and
  Le with 0 read back as 256 (the Le byte 0x00 is read as 256, and both 0 and 256 are
  written as 0x00). The claim as stated fails on \<open>EMVCommands.readRecord(1, 1)\<close>, whose
  Le is 0: it is read back as 256.
\<close>

theorem command_case_and_roundtrip:
  "apduCase c = (if cdata c = None then (if le c = None then 1 else 2)
                 else (if le c = None then 3 else 4))
   \<and> apduCase c \<in> {1, 2, 3, 4}
   \<and> (validCommand c \<longrightarrow>
        commandFromBuffer (commandToBuffer c) = Inr (c\<lparr>le := normalisedLe (le c)\<rparr>))"
proof -
  have a: "apduCase c = (if cdata c = None then (if le c = None then 1 else 2)
                 else (if le c = None then 3 else 4))"
    by (simp add: apduCase_def)
  have b: "apduCase c \<in> {1, 2, 3, 4}"
    by (simp add: apduCase_def)
  have r: "commandFromBuffer (commandToBuffer c) = Inr (c\<lparr>le := normalisedLe (le c)\<rparr>)"
    if v: "validCommand c"
  proof (cases c)
    case (fields cl i q1 q2 d l)
    have hdr: "0 \<le> cl" "cl < 256" "0 \<le> i" "i < 256" "0 \<le> q1" "q1 < 256" "0 \<le> q2" "q2 < 256"
      using v fields by (simp_all add: validCommand_def)
    show ?thesis
    proof (cases d)
      case None
      show ?thesis
      proof (cases l)
        case None
        with \<open>d = None\<close> fields hdr show ?thesis
          by (simp add: apduCase_def commandToBuffer_def commandFromBuffer_def normalisedLe_def
              uint_byte_of_int)
      next
        case (Some k)
        then have k: "0 \<le> k" "k \<le> 256"
          using v fields by (simp_all add: validCommand_def)
        from Some \<open>d = None\<close> fields hdr k show ?thesis
          by (auto simp add: apduCase_def commandToBuffer_def commandFromBuffer_def normalisedLe_def
              uint_byte_of_int leByte_eq_0 uint_leByte)
      qed
    next
      case (Some bs)
      then have short: "length bs < 256"
        using v fields by (simp add: validCommand_def)
      show ?thesis
      proof (cases l)
        case None
        then have "bs \<noteq> []"
          using v fields Some by (simp add: validCommand_def)
        then have bs: "0 < length bs"
          by simp
        from None Some fields hdr bs short show ?thesis
          by (simp add: apduCase_def commandToBuffer_def commandFromBuffer_def normalisedLe_def
              uint_byte_of_int unat_byte_of_nat slice_after_header_end)
      next
        case (Some k)
        then have k: "0 \<le> k" "k \<le> 256"
          using v fields by (simp_all add: validCommand_def)
        from Some \<open>d = Some bs\<close> fields hdr short k show ?thesis
          by (auto simp add: leByte_eq_0 uint_leByte nth_after_header Let_def apduCase_def
              commandToBuffer_def commandFromBuffer_def normalisedLe_def
              uint_byte_of_int unat_byte_of_nat slice_after_header nth_append)
      qed
    qed
  qed
  from a b r show ?thesis
    by blast
qed

theorem command_case_and_roundtrip_witness:
  "apduCase \<lparr>cla = 0x80, ins = 0xA8, p1 = 0x00, p2 = 0x00, cdata = Some [0x83, 0x00], le = Some 256\<rparr> = 4
   \<and> commandFromBuffer
       (commandToBuffer \<lparr>cla = 0x80, ins = 0xA8, p1 = 0x00, p2 = 0x00, cdata = Some [0x83, 0x00], le = Some 256\<rparr>)
     = Inr \<lparr>cla = 0x80, ins = 0xA8, p1 = 0x00, p2 = 0x00, cdata = Some [0x83, 0x00], le = Some 256\<rparr>
   \<and> apduCase \<lparr>cla = 0x00, ins = 0xA4, p1 = 0x04, p2 = 0x00, cdata = Some [], le = Some 0\<rparr> = 4
   \<and> commandFromBuffer
       (commandToBuffer \<lparr>cla = 0x00, ins = 0xA4, p1 = 0x04, p2 = 0x00, cdata = Some [], le = Some 0\<rparr>)
     = Inr \<lparr>cla = 0x00, ins = 0xA4, p1 = 0x04, p2 = 0x00, cdata = Some [], le = Some 256\<rparr>"
proof -
  let ?c = "\<lparr>cla = 0x80, ins = 0xA8, p1 = 0x00, p2 = 0x00, cdata = Some [0x83, 0x00], le = Some 256\<rparr>"
  let ?e = "\<lparr>cla = 0x00, ins = 0xA4, p1 = 0x04, p2 = 0x00, cdata = Some ([]::buffer), le = Some 0\<rparr>"
  have v: "validCommand ?c" "validCommand ?e"
    by (simp_all add: validCommand_def)
  show ?thesis
    using command_case_and_roundtrip [of ?c] command_case_and_roundtrip [of ?e] v
    by (simp add: normalisedLe_def)
qed

theorem command_roundtrip_counterexample:
  "commandFromBuffer
     (commandToBuffer \<lparr>cla = 0x00, ins = 0xB2, p1 = 0x01, p2 = 0x0C, cdata = None, le = Some 0\<rparr>)
   = Inr \<lparr>cla = 0x00, ins = 0xB2, p1 = 0x01, p2 = 0x0C, cdata = None, le = Some 256\<rparr>
   \<and> commandFromBuffer
     (commandToBuffer \<lparr>cla = 0x00, ins = 0xA4, p1 = 0x04, p2 = 0x00, cdata = Some [], le = None\<rparr>)
   = Inr \<lparr>cla = 0x00, ins = 0xA4, p1 = 0x04, p2 = 0x00, cdata = None, le = Some 256\<rparr>
   \<and> commandFromBuffer
     (commandToBuffer \<lparr>cla = 0x00, ins = 0xA4, p1 = 0x04, p2 = 0x00, cdata = Some (replicate 256 0x00),
        le = None\<rparr>)
   = Inl (Error ''Invalid APDU: incorrect length'')
   \<and> commandFromBuffer
     (commandToBuffer \<lparr>cla = 0x100, ins = 0xB2, p1 = 0x01, p2 = 0x0C, cdata = None, le = Some 300\<rparr>)
   = Inr \<lparr>cla = 0x00, ins = 0xB2, p1 = 0x01, p2 = 0x0C, cdata = None, le = Some 44\<rparr>"
proof -
  have a: "commandFromBuffer
     (commandToBuffer \<lparr>cla = 0x00, ins = 0xB2, p1 = 0x01, p2 = 0x0C, cdata = None, le = Some 0\<rparr>)
   = Inr \<lparr>cla = 0x00, ins = 0xB2, p1 = 0x01, p2 = 0x0C, cdata = None, le = Some 256\<rparr>"
    by (simp add: apduCase_def commandToBuffer_def commandFromBuffer_def leByte_def toNumber_def)
  have b: "commandFromBuffer
     (commandToBuffer \<lparr>cla = 0x00, ins = 0xA4, p1 = 0x04, p2 = 0x00, cdata = Some [], le = None\<rparr>)
   = Inr \<lparr>cla = 0x00, ins = 0xA4, p1 = 0x04, p2 = 0x00, cdata = None, le = Some 256\<rparr>"
    by (simp add: apduCase_def commandToBuffer_def commandFromBuffer_def)
  have c: "commandFromBuffer
     (commandToBuffer \<lparr>cla = 0x00, ins = 0xA4, p1 = 0x04, p2 = 0x00, cdata = Some (replicate 256 0x00),
        le = None\<rparr>)
   = Inl (Error ''Invalid APDU: incorrect length'')"
    by (simp add: apduCase_def commandToBuffer_def commandFromBuffer_def)
  have d: "commandFromBuffer
     (commandToBuffer \<lparr>cla = 0x100, ins = 0xB2, p1 = 0x01, p2 = 0x0C, cdata = None, le = Some 300\<rparr>)
   = Inr \<lparr>cla = 0x00, ins = 0xB2, p1 = 0x01, p2 = 0x0C, cdata = None, le = Some 44\<rparr>"
    by (simp add: apduCase_def commandToBuffer_def commandFromBuffer_def leByte_def toNumber_def)
  from a b c d show ?thesis
    by (intro conjI)
qed

subsection \<open>DOL materialization\<close>

text \<open>
  C7. \<open>DOLParser.buildData\<close> returns the concatenation, in entry order, of one buffer
  per entry; for an entry with length \<open>n\<close> that buffer has exactly \<open>n\<close> bytes: the
  supplied value zero-padded on the left when shorter, its rightmost \<open>n\<close> bytes when
  longer, and \<open>n\<close> zero bytes when no value is supplied. The entry for tag 9F02 with
  length 6 and the value \<open>0010\<close> give \<open>00 00 00 00 00 10\<close>.
\<close>

theorem buildData_concatenation:
  "buildData entries values = concat (map (expectedEntry values) entries)
   \<and> (\<forall>entry \<in> set entries. \<forall>n. dol_length entry = Some n \<longrightarrow>
         length (buildEntry values entry) = n)
   \<and> buildData [\<lparr>dol_tag = 0x9F02, dol_tagHex = ''9F02'', dol_length = Some 6\<rparr>]
         [''9F02'' \<mapsto> ''0010'']
       = [0x00, 0x00, 0x00, 0x00, 0x00, 0x10]"
proof -
  have a: "buildData entries values = concat (map (expectedEntry values) entries)"
    by (simp add: buildData_def buildEntry_expected_fun)
  have b: "\<forall>entry \<in> set entries. \<forall>n. dol_length entry = Some n \<longrightarrow>
         length (buildEntry values entry) = n"
    by (simp add: buildEntry_expected expectedEntry_def length_fitLeft)
  have c: "buildData [\<lparr>dol_tag = 0x9F02, dol_tagHex = ''9F02'', dol_length = Some 6\<rparr>]
         [''9F02'' \<mapsto> ''0010''] = [0x00, 0x00, 0x00, 0x00, 0x00, 0x10]"
    by (simp add: buildData_def buildEntry_expected expectedEntry_def suppliedValue_def fitLeft_def
        removeWhitespace_def isWhitespace_def hexValue_eval eval_nat_numeral)
  from a b c show ?thesis by blast
qed

theorem buildData_concatenation_witness:
  "buildData [\<lparr>dol_tag = 0x9F02, dol_tagHex = ''9F02'', dol_length = Some 2\<rparr>,
              \<lparr>dol_tag = 0x9F1A, dol_tagHex = ''9F1A'', dol_length = Some 2\<rparr>]
     [''9F02'' \<mapsto> ''00001234'']
   = [0x12, 0x34, 0x00, 0x00]
   \<and> length (buildEntry [''9F02'' \<mapsto> ''00001234'']
               \<lparr>dol_tag = 0x9F02, dol_tagHex = ''9F02'', dol_length = Some 2\<rparr>) = 2"
  using buildData_concatenation
    [of "[\<lparr>dol_tag = 0x9F02, dol_tagHex = ''9F02'', dol_length = Some 2\<rparr>,
          \<lparr>dol_tag = 0x9F1A, dol_tagHex = ''9F1A'', dol_length = Some 2\<rparr>]"
        "[''9F02'' \<mapsto> ''00001234'']"]
  by (simp add: expectedEntry_def suppliedValue_def fitLeft_def removeWhitespace_def
      isWhitespace_def hexValue_eval eval_nat_numeral)

subsection \<open>Constructed-bit test on tags of three bytes\<close>

text \<open>
  C8. The parser is to decide whether a node is constructed from bit 0x20 of the first
  byte of its tag, also for tags of two or more bytes. \<open>isConstructedTag\<close> takes the
  first byte as \<open>(tag >> 8) & 0xFF\<close>, which is the second byte of a three-byte tag. On the
  input \<open>BF 81 01 03 5A 01 42\<close> the first tag byte \<open>BF\<close> has bit 0x20 set, yet the node is
  returned as primitive and without children.
\<close>

theorem isConstructedTag_three_byte_tag:
  "parse 2 ''BF8101035A0142'' =
     Inr [TLVObject 0xBF8101 ''BF8101'' (Some 3) [0x5A, 0x01, 0x42] ''5A0142'' False []]
   \<and> isConstructedTag 0xBF8101 = False
   \<and> (0xBF :: byte) AND 0x20 = 0x20"
proof -
  let ?buf = "[0xBF, 0x81, 0x01, 0x03, 0x5A, 0x01, 0x42] :: buffer"
  have hex: "fromHex (removeWhitespace ''BF8101035A0142'') = ?buf"
    by (simp add: removeWhitespace_def isWhitespace_def hexValue_eval)
  have tg: "parseTag ?buf 0 = (Some 0xBF8101, 3)"
    by (simp add: parseTag_def bufferAt_def js_bits)
  have len: "parseLength ?buf (0 + 3) = (Some 3, 1)"
    by (simp add: parseLength_def bufferAt_def js_bits)
  have val: "slice ?buf (0 + 3 + 1) (0 + 3 + 1 + 3) = [0x5A, 0x01, 0x42]"
    by (simp add: slice_def adjustOffset_def)
  have con: "isConstructedTag 0xBF8101 = False"
    by (simp add: isConstructedTag_def js_bits)
  have th: "tagToHex 0xBF8101 = ''BF8101''"
    by (simp add: tagToHex_def padStart_def toUpperCase_def numberToString_def hexDigit_eval
        toUpperChar_eval)
  have vh: "toUpperCase (toHex [0x5A, 0x01, 0x42]) = ''5A0142''"
    by (simp add: toUpperCase_def toHex_def hexDigit_eval toUpperChar_eval)
  have "parseBuffer (Suc (Suc 0)) ?buf 0 7 =
     Inr [TLVObject 0xBF8101 ''BF8101'' (Some 3) [0x5A, 0x01, 0x42] ''5A0142'' False []]"
    by (subst parseBuffer_node [OF _ _ _ tg len val])
       (simp_all add: bufferAt_def con th vh parseBuffer_end)
  then have "parse 2 ''BF8101035A0142'' =
     Inr [TLVObject 0xBF8101 ''BF8101'' (Some 3) [0x5A, 0x01, 0x42] ''5A0142'' False []]"
    by (simp add: parse_def hex numeral_2_eq_2)
  then show ?thesis
    using con by simp
qed

subsection \<open>Input that runs past the end of the buffer\<close>

text \<open>
  C2, as amended. \<^const>\<open>parse\<close> checks no bound, and no input at all makes it fail with a
  decode error. When a well-formed tag that the parser takes as primitive and a complete
  length field (one byte below 0x80, or a byte \<open>0x80 + k\<close> and \<open>k\<close> bytes whose number is below
  \<open>2^31\<close>) are followed by fewer value bytes than the length field declares, it returns,
  on two units of fuel or more, one node whose length is the declared length and whose
  value is the bytes that are there.
\<close>

theorem parse_truncated_value:
  assumes "wellFormedTag tb" and "\<not> constructedAsParsed tb"
    and "wellFormedLength lf" and "length v < declaredLength lf"
  shows "parse (Suc (Suc fuel)) (toHex (tb @ lf @ v))
           = Inr [TLVObject (tagNumber tb) (toUpperCase (toHex tb)) (Some (int (declaredLength lf))) v
                    (toUpperCase (toHex v)) False []]
       \<and> parse fuel' hexData \<noteq> Inl (Error msg)"
proof -
  let ?buf = "tb @ lf @ v"
  have tk: "take (declaredLength lf) v = v"
    using assms(4) by simp
  have past: "\<not> int (length tb) + int (length lf) + int (declaredLength lf) < int (length ?buf)"
    using assms(4) by simp
  have "parseBuffer (Suc (Suc fuel)) ?buf (int (length ([]::buffer))) (int (length ?buf))
          = Inr [TLVObject (tagNumber tb) (toUpperCase (toHex tb)) (Some (int (declaredLength lf))) v
                    (toUpperCase (toHex v)) False []]"
    using assms(2)
    by (subst parseBuffer_field [OF assms(1) assms(3), of ?buf "[]" v])
       (simp_all add: tk parseBuffer_end [OF past] del: length_append)
  then have a: "parse (Suc (Suc fuel)) (toHex ?buf)
           = Inr [TLVObject (tagNumber tb) (toUpperCase (toHex tb)) (Some (int (declaredLength lf))) v
                    (toUpperCase (toHex v)) False []]"
    by (simp add: parse_toHex)
  have b: "parse fuel' hexData \<noteq> Inl (Error msg)"
    by (simp add: parse_def Let_def parseBuffer_no_Error)
  from a b show ?thesis
    by (rule conjI)
qed

theorem parse_truncated_value_witness:
  "parse 2 ''5a81051234'' = Inr [TLVObject 0x5A ''5A'' (Some 5) [0x12, 0x34] ''1234'' False []]
   \<and> parse 2 ''df81010512''
        = Inr [TLVObject 0xDF8101 ''DF8101'' (Some 5) [0x12] ''12'' False []]"
proof -
  have w: "wellFormedTag [0x5A]" "\<not> constructedAsParsed [0x5A]"
    "wellFormedTag [0xDF, 0x81, 0x01]" "\<not> constructedAsParsed [0xDF, 0x81, 0x01]"
    by (simp_all add: wellFormedTag_def constructedAsParsed_def constructedBit_def tagNumber_def)
  have l: "wellFormedLength [0x81, 0x05]" "wellFormedLength [0x05]"
    by (simp_all add: wellFormedLength_def bigEndian_def)
  have d: "declaredLength [0x81, 0x05] = 5" "declaredLength [0x05] = 5"
    by (simp_all add: declaredLength_def bigEndian_def)
  have s: "length [0x12, 0x34 :: byte] < declaredLength [0x81, 0x05]"
    "length [0x12 :: byte] < declaredLength [0x05]"
    by (simp_all add: d)
  have h: "toHex ([0x5A] @ [0x81, 0x05] @ [0x12, 0x34]) = ''5a81051234''"
    "toHex ([0xDF, 0x81, 0x01] @ [0x05] @ [0x12]) = ''df81010512''"
    by (simp_all add: toHex_def hexDigit_eval)
  have t: "toUpperCase (toHex [0x5A]) = ''5A''" "toUpperCase (toHex [0x12, 0x34]) = ''1234''"
    "toUpperCase (toHex [0xDF, 0x81, 0x01]) = ''DF8101''" "toUpperCase (toHex [0x12]) = ''12''"
    by (simp_all add: toUpperCase_def toHex_def hexDigit_eval toUpperChar_eval)
  have tn: "tagNumber [0x5A] = 0x5A" "tagNumber [0xDF, 0x81, 0x01] = 0xDF8101"
    by (simp_all add: tagNumber_def)
  have two: "Suc (Suc 0) = 2"
    by simp
  have "parse (Suc (Suc 0)) (toHex ([0x5A] @ [0x81, 0x05] @ [0x12, 0x34]))
          = Inr [TLVObject (tagNumber [0x5A]) (toUpperCase (toHex [0x5A]))
                   (Some (int (declaredLength [0x81, 0x05])))
                   [0x12, 0x34] (toUpperCase (toHex [0x12, 0x34])) False []]"
    using parse_truncated_value [OF w(1,2) l(1) s(1), of 0] by (rule conjunct1)
  moreover have "parse (Suc (Suc 0)) (toHex ([0xDF, 0x81, 0x01] @ [0x05] @ [0x12]))
          = Inr [TLVObject (tagNumber [0xDF, 0x81, 0x01]) (toUpperCase (toHex [0xDF, 0x81, 0x01]))
                   (Some (int (declaredLength [0x05])))
                   [0x12] (toUpperCase (toHex [0x12])) False []]"
    using parse_truncated_value [OF w(3,4) l(2) s(2), of 0] by (rule conjunct1)
  ultimately show ?thesis
    unfolding h t tn d two by simp
qed

theorem parse_out_of_bounds_counterexample:
  "parse 2 ''5A051234'' = Inr [TLVObject 0x5A ''5A'' (Some 5) [0x12, 0x34] ''1234'' False []]
   \<and> parse 2 ''5A8201'' = Inr [TLVObject 0x5A ''5A'' (Some 256) [] [] False []]
   \<and> parse 2 ''9F'' = Inr [TLVObject 0x9F00 ''9F00'' None [] [] False []]"
proof -
  let ?a = "[0x5A, 0x05, 0x12, 0x34] :: buffer"
  let ?b = "[0x5A, 0x82, 0x01] :: buffer"
  let ?c = "[0x9F] :: buffer"
  have hex: "fromHex (removeWhitespace ''5A051234'') = ?a"
    "fromHex (removeWhitespace ''5A8201'') = ?b"
    "fromHex (removeWhitespace ''9F'') = ?c"
    by (simp_all add: removeWhitespace_def isWhitespace_def hexValue_eval)
  have con: "isConstructedTag 0x5A = False" "isConstructedTag 0x9F00 = False"
    by (simp_all add: isConstructedTag_def js_bits)
  have th: "tagToHex 0x5A = ''5A''" "tagToHex 0x9F00 = ''9F00''"
    by (simp_all add: tagToHex_def padStart_def toUpperCase_def numberToString_def hexDigit_eval
        toUpperChar_eval)
  have vh: "toUpperCase (toHex [0x12, 0x34]) = ''1234''" "toUpperCase (toHex []) = []"
    by (simp_all add: toUpperCase_def toHex_def hexDigit_eval toUpperChar_eval)
  have a_tg: "parseTag ?a 0 = (Some 0x5A, 1)"
    by (simp add: parseTag_def bufferAt_def js_bits)
  have a_len: "parseLength ?a (0 + 1) = (Some 5, 1)"
    by (simp add: parseLength_def bufferAt_def js_bits)
  have a_val: "slice ?a (0 + 1 + 1) (0 + 1 + 1 + 5) = [0x12, 0x34]"
    by (simp add: slice_def adjustOffset_def)
  have a: "parseBuffer (Suc (Suc 0)) ?a 0 4
             = Inr [TLVObject 0x5A ''5A'' (Some 5) [0x12, 0x34] ''1234'' False []]"
    by (subst parseBuffer_node [OF _ _ _ a_tg a_len a_val])
       (simp_all add: bufferAt_def con th vh parseBuffer_end)
  have b_tg: "parseTag ?b 0 = (Some 0x5A, 1)"
    by (simp add: parseTag_def bufferAt_def js_bits)
  have b_len: "parseLength ?b (0 + 1) = (Some 256, 3)"
    by (simp add: parseLength_def bufferAt_def js_bits upto_small)
  have b_val: "slice ?b (0 + 1 + 3) (0 + 1 + 3 + 256) = []"
    by (simp add: slice_def adjustOffset_def)
  have b: "parseBuffer (Suc (Suc 0)) ?b 0 3 = Inr [TLVObject 0x5A ''5A'' (Some 256) [] [] False []]"
    by (subst parseBuffer_node [OF _ _ _ b_tg b_len b_val])
       (simp_all add: bufferAt_def con th vh parseBuffer_end)
  have c_tg: "parseTag ?c 0 = (Some 0x9F00, 2)"
    by (simp add: parseTag_def bufferAt_def js_bits)
  have c_len: "parseLength ?c (0 + 2) = (None, 1)"
    by (simp add: parseLength_def bufferAt_def js_bits)
  have c_val: "sliceNaN ?c (0 + 2 + 1) = []"
    by (simp add: sliceNaN_def slice_def adjustOffset_def)
  have c: "parseBuffer (Suc (Suc 0)) ?c 0 1 = Inr [TLVObject 0x9F00 ''9F00'' None [] [] False []]"
    by (subst parseBuffer_node_no_length [OF _ _ _ c_tg c_len c_val])
       (simp_all add: bufferAt_def con th vh)
  from a b c show ?thesis
    by (simp add: parse_def hex numeral_2_eq_2)
qed

subsection \<open>Round trip of the TLV codec\<close>

text \<open>
  C1, as amended. Take a node tree built with the builder in which every tag is a well-formed
  tag that does not start with a padding byte \<open>00\<close> or \<open>FF\<close>, fits the signed 32-bit integer
  the parser keeps a tag in, and has in its last byte but one the same bit 0x20 as in its
  first byte (as every tag of one or two bytes has); in which primitive nodes carry tags
  with the constructed bit clear and constructed nodes tags with it set; and in which every
  value is shorter than \<open>2^24\<close> bytes. Then \<^const>\<open>parse\<close>, given more fuel than there are
  bytes, applied to the hexadecimal text of the built bytes returns the same tree: the same
  tags, lengths, values and children.
\<close>

theorem parse_build_roundtrip:
  assumes "validNodes nodes" and "length (buildNodes nodes) < fuel"
  shows "parse fuel (toHex (buildNodes nodes)) = Inr (expectedObjects nodes)
       \<and> parse fuel (buildHex (addNodes nodes [])) = Inr (expectedObjects nodes)"
proof -
  have "parseBuffer fuel ([] @ buildNodes nodes) (int (length ([]::buffer)))
          (int (length ([] @ buildNodes nodes))) = Inr (expectedObjects nodes)"
    using assms by (rule parseBuffer_built(2))
  then have p: "parseBuffer fuel (buildNodes nodes) 0 (int (length (buildNodes nodes)))
                  = Inr (expectedObjects nodes)"
    by simp
  then have "parseBuffer fuel (build (addNodes nodes [])) 0 (int (length (build (addNodes nodes []))))
                  = Inr (expectedObjects nodes)"
    by (simp add: buildNodes_def)
  with p show ?thesis
    by (simp add: parse_toHex parse_buildHex)
qed

theorem parse_build_roundtrip_witness:
  "parse 12 ''70095a0142df8101020001''
     = Inr [TLVObject 0x70 ''70'' (Some 9) [0x5A, 0x01, 0x42, 0xDF, 0x81, 0x01, 0x02, 0x00, 0x01]
              ''5A0142DF8101020001'' True
              [TLVObject 0x5A ''5A'' (Some 1) [0x42] ''42'' False [],
               TLVObject 0xDF8101 ''DF8101'' (Some 2) [0x00, 0x01] ''0001'' False []]]"
proof -
  let ?nodes = "[Constructed ''70'' [Primitive ''5A'' [0x42], Primitive ''df8101'' [0x00, 0x01]]]"
  have up: "toUpperCase ''70'' = ''70''" "toUpperCase ''5A'' = ''5A''"
    "toUpperCase ''df8101'' = ''DF8101''"
    by (simp_all add: toUpperCase_def toUpperChar_eval)
  have th: "toUpperCase (toHex [0x70]) = ''70''" "toUpperCase (toHex [0x5A]) = ''5A''"
    "toUpperCase (toHex [0xDF, 0x81, 0x01]) = ''DF8101''"
    "toUpperCase (toHex [0x42]) = ''42''" "toUpperCase (toHex [0x00, 0x01]) = ''0001''"
    "toUpperCase (toHex [0x5A, 0x01, 0x42, 0xDF, 0x81, 0x01, 0x02, 0x00, 0x01]) = ''5A0142DF8101020001''"
    by (simp_all add: toUpperCase_def toHex_def hexDigit_eval toUpperChar_eval)
  have kids: "buildNodes [Primitive ''5A'' [0x42], Primitive ''df8101'' [0x00, 0x01]]
                = [0x5A, 0x01, 0x42, 0xDF, 0x81, 0x01, 0x02, 0x00, 0x01]"
    by (simp add: buildNodes_Cons buildNodes_Nil hexValue_eval encodeLength_def)
  have bytes: "buildNodes ?nodes = [0x70, 0x09, 0x5A, 0x01, 0x42, 0xDF, 0x81, 0x01, 0x02, 0x00, 0x01]"
    by (simp add: buildNodes_Cons buildNodes_Nil hexValue_eval kids encodeLength_def)
  have tx: "toHex [0x70, 0x09, 0x5A, 0x01, 0x42, 0xDF, 0x81, 0x01, 0x02, 0x00, 0x01 :: byte]
                = ''70095a0142df8101020001''"
    by (simp add: toHex_def hexDigit_eval)
  have tn: "tagNumber [0x70] = 0x70" "tagNumber [0x5A] = 0x5A" "tagNumber [0xDF, 0x81, 0x01] = 0xDF8101"
    by (simp_all add: tagNumber_def)
  have v: "validNodes ?nodes"
    by (simp add: validTag_def hexValue_eval up th kids tn wellFormedTag_def constructedBit_def
        constructedAsParsed_def)
  have l: "length (buildNodes ?nodes) < 12"
    by (simp add: bytes)
  have "parse 12 (toHex (buildNodes ?nodes)) = Inr (expectedObjects ?nodes)"
    using parse_build_roundtrip [OF v l] by (rule conjunct1)
  then show ?thesis
    by (simp add: bytes tx kids hexValue_eval up th tn)
qed

theorem parse_build_counterexample:
  "buildNodes [Constructed ''FF21'' [Primitive ''5A'' [0x42]]] = [0xFF, 0x21, 0x03, 0x5A, 0x01, 0x42]
   \<and> parse 4 (toHex [0xFF, 0x21, 0x03, 0x5A, 0x01, 0x42])
        = Inr [TLVObject 0x21 ''21'' (Some 3) [0x5A, 0x01, 0x42] ''5A0142'' True
                 [TLVObject 0x5A ''5A'' (Some 1) [0x42] ''42'' False []]]
   \<and> buildNodes [Primitive ''DF818101'' [0x42]] = [0xDF, 0x81, 0x81, 0x01, 0x01, 0x42]
   \<and> parse 2 (toHex [0xDF, 0x81, 0x81, 0x01, 0x01, 0x42])
        = Inr [TLVObject (- 545160959) ''-207E7EFF'' (Some 1) [0x42] ''42'' False []]
   \<and> buildNodes [Primitive ''00'' [0x42]] = [0x00, 0x01, 0x42]
   \<and> parse 3 (toHex [0x00, 0x01, 0x42]) = Inr [TLVObject 0x01 ''01'' (Some 66) [] [] False []]"
proof -
  let ?z = "[0x00, 0x01, 0x42] :: buffer"
  have build_z: "buildNodes [Primitive ''00'' [0x42]] = ?z"
    by (simp add: buildNodes_Cons buildNodes_Nil hexValue_eval encodeLength_def)
  have z_con: "isConstructedTag 0x01 = False"
    by (simp add: isConstructedTag_def js_bits)
  have z_th: "tagToHex 0x01 = ''01''" "toUpperCase (toHex []) = []"
    by (simp_all add: tagToHex_def padStart_def toUpperCase_def numberToString_def hexDigit_eval
        toUpperChar_eval toHex_def)
  have z_tg: "parseTag ?z 1 = (Some 0x01, 1)"
    by (simp add: parseTag_def bufferAt_def js_bits)
  have z_len: "parseLength ?z (1 + 1) = (Some 66, 1)"
    by (simp add: parseLength_def bufferAt_def js_bits)
  have z_val: "slice ?z (1 + 1 + 1) (1 + 1 + 1 + 66) = []"
    by (simp add: slice_def adjustOffset_def)
  have z1: "parseBuffer (Suc (Suc 0)) ?z 1 3 = Inr [TLVObject 0x01 ''01'' (Some 66) [] [] False []]"
    by (subst parseBuffer_node [OF _ _ _ z_tg z_len z_val])
       (simp_all add: bufferAt_def z_con z_th parseBuffer_end)
  have z: "parseBuffer (Suc (Suc (Suc 0))) ?z 0 3 = Inr [TLVObject 0x01 ''01'' (Some 66) [] [] False []]"
    by (subst parseBuffer.simps) (simp add: bufferAt_def z1)
  let ?a = "[0xFF, 0x21, 0x03, 0x5A, 0x01, 0x42] :: buffer"
  let ?k = "[0x5A, 0x01, 0x42] :: buffer"
  let ?b = "[0xDF, 0x81, 0x81, 0x01, 0x01, 0x42] :: buffer"
  have kids: "buildNodes [Primitive ''5A'' [0x42]] = ?k"
    by (simp add: buildNodes_Cons buildNodes_Nil hexValue_eval encodeLength_def)
  have build_a: "buildNodes [Constructed ''FF21'' [Primitive ''5A'' [0x42]]] = ?a"
    by (simp add: buildNodes_Cons buildNodes_Nil hexValue_eval kids encodeLength_def)
  have build_b: "buildNodes [Primitive ''DF818101'' [0x42]] = ?b"
    by (simp add: buildNodes_Cons buildNodes_Nil hexValue_eval encodeLength_def)
  have con: "isConstructedTag 0x21 = True" "isConstructedTag 0x5A = False"
    "isConstructedTag (- 545160959) = False"
    by (simp_all add: isConstructedTag_def js_bits)
  have minus: "toUpperChar CHR ''-'' = CHR ''-''"
    by code_simp
  have th: "tagToHex 0x21 = ''21''" "tagToHex 0x5A = ''5A''" "tagToHex (- 545160959) = ''-207E7EFF''"
    by (simp_all add: tagToHex_def padStart_def toUpperCase_def numberToString_def hexDigit_eval
        toUpperChar_eval minus)
  have vh: "toUpperCase (toHex [0x42]) = ''42''" "toUpperCase (toHex ?k) = ''5A0142''"
    by (simp_all add: toUpperCase_def toHex_def hexDigit_eval toUpperChar_eval)
  have k_tg: "parseTag ?k 0 = (Some 0x5A, 1)"
    by (simp add: parseTag_def bufferAt_def js_bits)
  have k_len: "parseLength ?k (0 + 1) = (Some 1, 1)"
    by (simp add: parseLength_def bufferAt_def js_bits)
  have k_val: "slice ?k (0 + 1 + 1) (0 + 1 + 1 + 1) = [0x42]"
    by (simp add: slice_def adjustOffset_def)
  have k: "parseBuffer (Suc (Suc 0)) ?k 0 3 = Inr [TLVObject 0x5A ''5A'' (Some 1) [0x42] ''42'' False []]"
    by (subst parseBuffer_node [OF _ _ _ k_tg k_len k_val])
       (simp_all add: bufferAt_def con th vh parseBuffer_end)
  have a_tg: "parseTag ?a 1 = (Some 0x21, 1)"
    by (simp add: parseTag_def bufferAt_def js_bits)
  have a_len: "parseLength ?a (1 + 1) = (Some 3, 1)"
    by (simp add: parseLength_def bufferAt_def js_bits)
  have a_val: "slice ?a (1 + 1 + 1) (1 + 1 + 1 + 3) = ?k"
    by (simp add: slice_def adjustOffset_def)
  have a_end: "parseBuffer (Suc (Suc 0)) ?a 6 6 = Inr []"
    by (rule parseBuffer_end) simp
  have a1: "parseBuffer (Suc (Suc (Suc 0))) ?a 1 6
              = Inr [TLVObject 0x21 ''21'' (Some 3) ?k ''5A0142'' True
                       [TLVObject 0x5A ''5A'' (Some 1) [0x42] ''42'' False []]]"
    by (subst parseBuffer_node [OF _ _ _ a_tg a_len a_val])
       (simp_all add: bufferAt_def con th vh k a_end)
  have a: "parseBuffer (Suc (Suc (Suc (Suc 0)))) ?a 0 6
             = Inr [TLVObject 0x21 ''21'' (Some 3) ?k ''5A0142'' True
                       [TLVObject 0x5A ''5A'' (Some 1) [0x42] ''42'' False []]]"
    by (subst parseBuffer.simps) (simp add: bufferAt_def a1)
  have b_tg: "parseTag ?b 0 = (Some (- 545160959), 4)"
    by (simp add: parseTag_def bufferAt_def js_bits)
  have b_len: "parseLength ?b (0 + 4) = (Some 1, 1)"
    by (simp add: parseLength_def bufferAt_def js_bits)
  have b_val: "slice ?b (0 + 4 + 1) (0 + 4 + 1 + 1) = [0x42]"
    by (simp add: slice_def adjustOffset_def)
  have b: "parseBuffer (Suc (Suc 0)) ?b 0 6
             = Inr [TLVObject (- 545160959) ''-207E7EFF'' (Some 1) [0x42] ''42'' False []]"
    by (subst parseBuffer_node [OF _ _ _ b_tg b_len b_val])
       (simp_all add: bufferAt_def con th vh parseBuffer_end)
  have four: "Suc (Suc (Suc (Suc 0))) = 4"
    by simp
  from a b z build_a build_b build_z show ?thesis
    by (simp add: parse_toHex numeral_2_eq_2 numeral_3_eq_3 four [symmetric])
qed

subsection \<open>GET PROCESSING OPTIONS: format 1 and format 2 agree\<close>



end

